theory Spec2Isabelle
  imports Complex_Main "HOL-Library.Char_ord" "HOL-Library.List_Lexorder"
    "HOL-Library.Product_Lexorder"
begin

section \<open>Python values and string operations\<close>

text \<open>
  The benchmark scripts are Python. Text is modelled as \<^typ>\<open>string\<close> restricted to
  ASCII: the predicates below are Python's \<^verbatim>\<open>str\<close> methods on ASCII characters.
  Exceptions are values: the handlers of the scripts distinguish only
  \<^verbatim>\<open>subprocess.TimeoutExpired\<close> from every other \<^verbatim>\<open>Exception\<close>, so an exception
  is either the former or carries the text \<^verbatim>\<open>str(e)\<close> of the latter.
\<close>

datatype py_exn = TimeoutExpired | PyException string

definition isspace :: "char \<Rightarrow> bool" where
  "isspace c = (c \<in> set [CHR 0x09, CHR 0x0A, CHR 0x0B, CHR 0x0C, CHR 0x0D,
                          CHR 0x1C, CHR 0x1D, CHR 0x1E, CHR 0x1F, CHR 0x20])"

definition is_digit :: "char \<Rightarrow> bool" where
  "is_digit c = (c \<in> set ''0123456789'')"

definition is_word :: "char \<Rightarrow> bool" where
  "is_word c = (c \<in> set ''abcdefghijklmnopqrstuvwxyzABCDEFGHIJKLMNOPQRSTUVWXYZ0123456789_'')"

definition lstrip :: "string \<Rightarrow> string" where
  "lstrip s = dropWhile isspace s"

definition rstrip :: "string \<Rightarrow> string" where
  "rstrip s = rev (dropWhile isspace (rev s))"

definition strip :: "string \<Rightarrow> string" where
  "strip s = lstrip (rstrip s)"

definition startswith :: "string \<Rightarrow> string \<Rightarrow> bool" where
  "startswith s p = (take (length p) s = p)"

definition endswith :: "string \<Rightarrow> string \<Rightarrow> bool" where
  "endswith s p = (length p \<le> length s \<and> drop (length s - length p) s = p)"

text \<open>\<^verbatim>\<open>p in s\<close>: \<open>p\<close> occurs in \<open>s\<close> as a contiguous substring.\<close>

fun contains :: "string \<Rightarrow> string \<Rightarrow> bool" where
  "contains [] p = (p = [])"
| "contains (c # cs) p = (startswith (c # cs) p \<or> contains cs p)"

text \<open>\<^verbatim>\<open>s.replace(c, r)\<close> for a one-character \<open>c\<close>.\<close>

definition replace_char :: "char \<Rightarrow> string \<Rightarrow> string \<Rightarrow> string" where
  "replace_char c r s = concat (map (\<lambda>x. if x = c then r else [x]) s)"

text \<open>\<^verbatim>\<open>s.split()\<close>: the maximal runs of non-whitespace characters.\<close>

fun split_ws :: "string \<Rightarrow> string \<Rightarrow> string list" where
  "split_ws cur [] = (if cur = [] then [] else [cur])"
| "split_ws cur (c # cs) =
     (if isspace c then (if cur = [] then split_ws [] cs else cur # split_ws [] cs)
      else split_ws (cur @ [c]) cs)"

definition split :: "string \<Rightarrow> string list" where
  "split s = split_ws [] s"

text \<open>\<^verbatim>\<open>s.split(d)\<close> for a one-character separator: always at least one piece.\<close>

fun split_on :: "char \<Rightarrow> string \<Rightarrow> string \<Rightarrow> string list" where
  "split_on d cur [] = [cur]"
| "split_on d cur (c # cs) =
     (if c = d then cur # split_on d [] cs else split_on d (cur @ [c]) cs)"

definition isdigit :: "string \<Rightarrow> bool" where
  "isdigit s = (s \<noteq> [] \<and> list_all is_digit s)"

definition digit_val :: "char \<Rightarrow> int" where
  "digit_val c = of_char c - 48"

definition dec_value :: "string \<Rightarrow> int" where
  "dec_value s = foldl (\<lambda>acc c. 10 * acc + digit_val c) 0 s"

text \<open>
  The digits of a decimal literal accepted by \<^verbatim>\<open>int()\<close>: digits, with single underscores
  allowed between two digits.
\<close>

fun int_body_ok :: "string \<Rightarrow> bool" where
  "int_body_ok [] = False"
| "int_body_ok [c] = is_digit c"
| "int_body_ok (c # d # cs) =
     (is_digit c \<and> (if d = CHR ''_'' then int_body_ok cs else int_body_ok (d # cs)))"

text \<open>
  \<^verbatim>\<open>int(s)\<close> in base ten: surrounding whitespace is ignored, one sign is allowed;
  \<open>None\<close> stands for the \<^verbatim>\<open>ValueError\<close>. Python integers are unbounded; the interpreter's
  configurable cap on the number of digits of a literal is taken as switched off.
\<close>

definition py_int :: "string \<Rightarrow> int option" where
  "py_int s =
     (let t = strip s;
          neg = (t \<noteq> [] \<and> hd t = CHR ''-'');
          body = (if t \<noteq> [] \<and> (hd t = CHR ''-'' \<or> hd t = CHR ''+'') then tl t else t)
      in if int_body_ok body
         then Some ((if neg then - 1 else 1) * dec_value (filter (\<lambda>c. c \<noteq> CHR ''_'') body))
         else None)"

text \<open>\<^verbatim>\<open>str(n)\<close> for a natural number.\<close>

fun str_nat :: "nat \<Rightarrow> string" where
  "str_nat n = (if n < 10 then [char_of (48 + n)] else str_nat (n div 10) @ [char_of (48 + n mod 10)])"

section \<open>Resource-usage parser (\<^verbatim>\<open>create_memory_cache_graphs.parse_performance_metrics\<close>)\<close>

text \<open>
  A row of the returned table. \<open>memory_mb\<close> is \<^verbatim>\<open>memory_kb / 1024.0\<close>; the model keeps the
  exact quotient, which Python rounds to the nearest double.
\<close>

record memory_row =
  mem_algorithm :: string
  mem_test :: string
  mem_category :: string
  memory_kb :: int
  memory_mb :: rat

text \<open>
  The category of a test name: the \<^verbatim>\<open>if\<close>/\<^verbatim>\<open>elif\<close> chain of the source, in its order;
  \<open>None\<close> is the source's \<^verbatim>\<open>category = None\<close>.
\<close>

definition categorise :: "string \<Rightarrow> string option" where
  "categorise test_name =
     (if startswith test_name ''dense'' then Some ''dense''
      else if startswith test_name ''sparse'' then Some ''sparse''
      else if startswith test_name ''small'' then Some ''small''
      else if startswith test_name ''large'' then Some ''large''
      else if startswith test_name ''tree'' then Some ''tree_like''
      else if startswith test_name ''highly'' then Some ''highly_connected''
      else if contains test_name ''road'' \<or> contains test_name ''com'' \<or> contains test_name ''wiki''
              \<or> contains test_name ''soc'' \<or> contains test_name ''web'' then Some ''real_world''
      else None)"

text \<open>
  The regular expression \<^verbatim>\<open>Algorithm: (p\d)\<close> matched at the start of a text: the captured
  group and the text after the match.
\<close>

definition match_algorithm :: "string \<Rightarrow> (string \<times> string) option" where
  "match_algorithm s =
     (if startswith s ''Algorithm: p''
      then (case drop (length ''Algorithm: p'') s of
              [] \<Rightarrow> None
            | d # rest \<Rightarrow> if is_digit d then Some ([CHR ''p'', d], rest) else None)
      else None)"

text \<open>\<^verbatim>\<open>Test: (\w+)\<close> matched at the start of a text; the group is greedy.\<close>

definition match_test :: "string \<Rightarrow> (string \<times> string) option" where
  "match_test s =
     (if startswith s ''Test: '' \<and> takeWhile is_word (drop (length ''Test: '') s) \<noteq> []
      then Some (takeWhile is_word (drop (length ''Test: '') s),
                 dropWhile is_word (drop (length ''Test: '') s))
      else None)"

text \<open>\<^verbatim>\<open>Maximum resident set size \(kbytes\): (\d+)\<close> matched at the start of a text.\<close>

definition match_memory :: "string \<Rightarrow> string option" where
  "match_memory s =
     (if startswith s ''Maximum resident set size (kbytes): ''
         \<and> takeWhile is_digit (drop (length ''Maximum resident set size (kbytes): '') s) \<noteq> []
      then Some (takeWhile is_digit (drop (length ''Maximum resident set size (kbytes): '') s))
      else None)"

lemma startswith_length: "startswith s p \<Longrightarrow> length p \<le> length s"
proof -
  assume "startswith s p"
  then have "length (take (length p) s) = length p"
    by (simp add: startswith_def)
  then show ?thesis by simp
qed

lemma match_algorithm_shorter: "match_algorithm s = Some (g, rest) \<Longrightarrow> length rest < length s"
proof -
  assume m: "match_algorithm s = Some (g, rest)"
  define n where "n = length ''Algorithm: p''"
  from m have sw: "startswith s ''Algorithm: p''"
    by (simp add: match_algorithm_def split: if_splits)
  with m obtain d where "drop n s = d # rest"
    by (auto simp: match_algorithm_def n_def split: list.splits if_splits)
  then have "length (drop n s) = Suc (length rest)" by simp
  then show ?thesis by simp
qed

lemma match_test_shorter: "match_test s = Some (g, rest) \<Longrightarrow> length rest < length s"
proof -
  assume m: "match_test s = Some (g, rest)"
  define n where "n = length ''Test: ''"
  from m have sw: "startswith s ''Test: ''"
    and r: "rest = dropWhile is_word (drop n s)"
    by (simp_all add: match_test_def n_def split: if_splits)
  from sw have "n \<le> length s"
    unfolding n_def by (rule startswith_length)
  moreover have "0 < n" by (simp add: n_def)
  moreover have "length rest \<le> length (drop n s)"
    unfolding r by (rule length_dropWhile_le)
  ultimately show ?thesis by simp
qed

text \<open>
  \<^verbatim>\<open>re.split\<close> with one capturing group: the text before the first match, then for every
  match, leftmost first and without overlap, the group and the text up to the next match.
\<close>

function split_algorithms :: "string \<Rightarrow> string \<Rightarrow> string list" where
  "split_algorithms cur [] = [cur]"
| "split_algorithms cur (c # cs) =
     (case match_algorithm (c # cs) of
        Some (g, rest) \<Rightarrow> cur # g # split_algorithms [] rest
      | None \<Rightarrow> split_algorithms (cur @ [c]) cs)"
  by pat_completeness auto
termination
  by (relation "measure (\<lambda>(cur, s). length s)") (auto dest: match_algorithm_shorter)

function split_tests :: "string \<Rightarrow> string \<Rightarrow> string list" where
  "split_tests cur [] = [cur]"
| "split_tests cur (c # cs) =
     (case match_test (c # cs) of
        Some (g, rest) \<Rightarrow> cur # g # split_tests [] rest
      | None \<Rightarrow> split_tests (cur @ [c]) cs)"
  by pat_completeness auto
termination
  by (relation "measure (\<lambda>(cur, s). length s)") (auto dest: match_test_shorter)

text \<open>\<^verbatim>\<open>re.search\<close>: the group of the leftmost match.\<close>

fun search_memory :: "string \<Rightarrow> string option" where
  "search_memory [] = None"
| "search_memory (c # cs) =
     (case match_memory (c # cs) of Some g \<Rightarrow> Some g | None \<Rightarrow> search_memory cs)"

text \<open>
  The loops \<^verbatim>\<open>for i in range(1, len(xs), 2)\<close> read \<^verbatim>\<open>xs[i]\<close> and \<^verbatim>\<open>xs[i + 1]\<close>: the
  elements after the first, two by two. (The lists come from \<^verbatim>\<open>re.split\<close> with one
  group and have odd length, so \<^verbatim>\<open>xs[i + 1]\<close> exists.)
\<close>

fun marker_pairs :: "'a list \<Rightarrow> ('a \<times> 'a) list" where
  "marker_pairs (a # b # rest) = (a, b) # marker_pairs rest"
| "marker_pairs _ = []"

text \<open>
  Converting an integer to a double raises \<^verbatim>\<open>OverflowError\<close> when it rounds beyond the
  largest double.
\<close>

definition float_overflow :: "int \<Rightarrow> bool" where
  "float_overflow k = (2 ^ 1024 - 2 ^ 970 \<le> \<bar>k\<bar>)"

definition overflow_error :: py_exn where
  "overflow_error = PyException ''int too large to convert to float''"

definition value_error :: py_exn where
  "value_error = PyException ''invalid literal for int() with base 10''"

text \<open>The body of the inner loop for one test block: the row it appends, if any.\<close>

definition block_row :: "string \<Rightarrow> string \<Rightarrow> string \<Rightarrow> py_exn + memory_row option" where
  "block_row algo test_name test_data =
     (case search_memory test_data of
        None \<Rightarrow> Inr None
      | Some ds \<Rightarrow>
          (case py_int ds of
             None \<Rightarrow> Inl value_error
           | Some kb \<Rightarrow>
               if float_overflow kb then Inl overflow_error
               else (case categorise test_name of
                       None \<Rightarrow> Inr None
                     | Some cat \<Rightarrow>
                         Inr (Some \<lparr>mem_algorithm = algo, mem_test = test_name, mem_category = cat,
                                    memory_kb = kb, memory_mb = of_int kb / 1024\<rparr>))))"

fun tests_loop :: "string \<Rightarrow> (string \<times> string) list \<Rightarrow> memory_row list \<Rightarrow> py_exn + memory_row list" where
  "tests_loop algo [] data = Inr data"
| "tests_loop algo ((test_name, test_data) # rest) data =
     (case block_row algo test_name test_data of
        Inl e \<Rightarrow> Inl e
      | Inr None \<Rightarrow> tests_loop algo rest data
      | Inr (Some r) \<Rightarrow> tests_loop algo rest (data @ [r]))"

fun algorithms_loop :: "(string \<times> string) list \<Rightarrow> memory_row list \<Rightarrow> py_exn + memory_row list" where
  "algorithms_loop [] data = Inr data"
| "algorithms_loop ((algo, section) # rest) data =
     (case tests_loop algo (marker_pairs (tl (split_tests [] section))) data of
        Inl e \<Rightarrow> Inl e
      | Inr data' \<Rightarrow> algorithms_loop rest data')"

text \<open>
  The report file as the parser finds it: absent, unreadable (\<^verbatim>\<open>open\<close> or \<^verbatim>\<open>read\<close>
  raises), or readable with its text.
\<close>

datatype file_state = Absent | Unreadable py_exn | Readable string

text \<open>The check mark printed by the scripts, in UTF-8.\<close>

definition check_mark :: string where
  "check_mark = [CHR 0xE2, CHR 0x9C, CHR 0x93]"

text \<open>
  \<^verbatim>\<open>parse_performance_metrics\<close>, given the path of the report and its state: the lines it
  prints, and either the exception it raises or its return value, where \<open>None\<close> is
  Python's \<^verbatim>\<open>None\<close> and \<open>Some rows\<close> the data frame built from \<open>rows\<close>.
\<close>

definition parse_performance_metrics ::
    "string \<Rightarrow> file_state \<Rightarrow> string list \<times> (py_exn + memory_row list option)" where
  "parse_performance_metrics metrics_file st =
     (case st of
        Absent \<Rightarrow> ([''Error: '' @ metrics_file @ '' not found!''], Inr None)
      | Unreadable e \<Rightarrow> ([], Inl e)
      | Readable content \<Rightarrow>
          (case algorithms_loop (marker_pairs (tl (split_algorithms [] content))) [] of
             Inl e \<Rightarrow> ([], Inl e)
           | Inr data \<Rightarrow>
               if data = [] then ([''No memory data found!''], Inr None)
               else ([check_mark @ '' Parsed memory data: '' @ str_nat (length data)
                        @ '' entries across ''
                        @ str_nat (length (remdups (map mem_algorithm data))) @ '' algorithms''],
                     Inr (Some data))))"

section \<open>Corpus discovery (\<^verbatim>\<open>discover_dataset_files\<close> of both drivers)\<close>

text \<open>
  One entry of the dataset directory as \<^verbatim>\<open>iterdir\<close> yields it: its name, whether it is
  a directory, and the names that directory holds, in the order the file system lists them
  (which is arbitrary).
\<close>

record dir_entry =
  entry_name :: string
  is_dir :: bool
  children :: "string list"

text \<open>
  \<^verbatim>\<open>category.glob('*.txt')\<close> keeps the names that end in \<^verbatim>\<open>.txt\<close>; \<^verbatim>\<open>sorted\<close> orders
  paths of one directory by their names, character by character. The result pairs the
  category's name with the file's name (the path is the dataset directory, the category and
  that name). A missing dataset directory makes \<^verbatim>\<open>iterdir\<close> raise.
\<close>

definition category_files :: "dir_entry \<Rightarrow> (string \<times> string) list" where
  "category_files category =
     map (\<lambda>f. (entry_name category, f)) (sort (filter (\<lambda>f. endswith f ''.txt'') (children category)))"

definition discover_dataset_files :: "dir_entry list option \<Rightarrow> py_exn + (string \<times> string) list" where
  "discover_dataset_files dataset_dir =
     (case dataset_dir of
        None \<Rightarrow> Inl (PyException ''No such file or directory'')
      | Some listing \<Rightarrow>
          Inr (concat (map category_files (filter is_dir (sort_key entry_name listing)))))"

section \<open>Graph headers (\<^verbatim>\<open>run_all.read_header_and_edges\<close>, \<^verbatim>\<open>run_p1_only.run\<close>)\<close>

text \<open>
  The lines of a text file as iteration and \<^verbatim>\<open>readline\<close> give them: each with its
  newline, the last one possibly without. The text is the one Python reads, with every line
  end already translated to a newline.
\<close>

fun file_lines :: "string \<Rightarrow> string \<Rightarrow> string list" where
  "file_lines cur [] = (if cur = [] then [] else [cur])"
| "file_lines cur (c # cs) =
     (if c = CHR 0x0A then (cur @ [c]) # file_lines [] cs else file_lines (cur @ [c]) cs)"

text \<open>
  \<^verbatim>\<open>gen_from_file\<close>: the edges of the given lines. Blank lines, comment lines, lines with
  fewer than two fields and lines whose first two fields are not integers are skipped;
  commas separate fields as blanks do.
\<close>

fun gen_from_file :: "string list \<Rightarrow> (int \<times> int) list" where
  "gen_from_file [] = []"
| "gen_from_file (l # ls) =
     (let line = strip l in
      if line = [] then gen_from_file ls
      else if startswith (lstrip line) ''#'' then gen_from_file ls
      else (let a = split (replace_char CHR '','' '' '' line) in
            if length a < 2 then gen_from_file ls
            else (case (py_int (a ! 0), py_int (a ! 1)) of
                    (Some u, Some v) \<Rightarrow> (u, v) # gen_from_file ls
                  | _ \<Rightarrow> gen_from_file ls)))"

text \<open>
  \<^verbatim>\<open>read_header_and_edges\<close> on the text of a file: the header is looked for on the first
  line only; without one the file is read again from its start and the counts are inferred
  from its edges.
\<close>

definition read_header_and_edges :: "string \<Rightarrow> int \<times> int \<times> (int \<times> int) list" where
  "read_header_and_edges text =
     (let ls = file_lines [] text;
          first = strip (case ls of [] \<Rightarrow> [] | l # _ \<Rightarrow> l);
          parts = split first;
          header = (if 2 \<le> length parts
                    then (case (py_int (parts ! 0), py_int (parts ! 1)) of
                            (Some n, Some m) \<Rightarrow> Some (n, m)
                          | _ \<Rightarrow> None)
                    else None)
      in case header of
           Some (n, m) \<Rightarrow> (n, m, gen_from_file (tl ls))
         | None \<Rightarrow>
             (let edges = gen_from_file ls in
              if edges \<noteq> []
              then (Max (set (map (\<lambda>(u, v). max u v) edges)) + 1, int (length edges), edges)
              else (0, 0, [])))"

text \<open>
  \<^verbatim>\<open>build_graph_from_file\<close>: opening or reading the file may raise; the graph is the list
  of the edges added to it.
\<close>

definition build_graph_from_file :: "file_state \<Rightarrow> py_exn + int \<times> int \<times> (int \<times> int) list" where
  "build_graph_from_file st =
     (case st of
        Absent \<Rightarrow> Inl (PyException ''No such file or directory'')
      | Unreadable e \<Rightarrow> Inl e
      | Readable text \<Rightarrow> Inr (read_header_and_edges text))"

text \<open>
  The header loop of \<^verbatim>\<open>run_p1_only.run\<close> over the lines of a file: \<open>None\<close> when the loop
  ends without assigning \<^verbatim>\<open>n, m\<close>; otherwise the two integers, or \<open>Inl\<close> when \<^verbatim>\<open>int\<close>
  raises.
\<close>

fun p1_header_loop :: "string list \<Rightarrow> (py_exn + int \<times> int) option" where
  "p1_header_loop [] = None"
| "p1_header_loop (l # ls) =
     (let line = strip l in
      if line \<noteq> [] \<and> \<not> startswith line ''#''
      then (let parts = split line in
            if 2 \<le> length parts
            then (case (py_int (parts ! 0), py_int (parts ! 1)) of
                    (Some n, Some m) \<Rightarrow> Some (Inr (n, m))
                  | _ \<Rightarrow> Some (Inl value_error))
            else p1_header_loop ls)
      else p1_header_loop ls)"

section \<open>Execution drivers (\<^verbatim>\<open>run_all.run\<close>, \<^verbatim>\<open>run_p1_only.run\<close>)\<close>

text \<open>Values stored in a result row: \<^verbatim>\<open>None\<close>, an integer, a float or a string.\<close>

datatype pyval = PNone | PInt int | PFloat rat | PStr string

text \<open>
  One entry of \<^verbatim>\<open>results\<close>: the dictionary with its eight keys (field \<open>r_k\<close> for key \<open>k\<close>).
\<close>

record result =
  r_algorithm :: string
  r_category :: string
  r_file :: string
  r_n :: pyval
  r_m :: pyval
  r_time :: pyval
  r_exitcode :: pyval
  r_output :: string

text \<open>
  What the external process does when launched on a file: launching it (or opening the
  file for its input) raises; or it exits by itself after some seconds with an exit code,
  having written its output; or it never exits by itself. The seconds are those between the
  two readings of \<^verbatim>\<open>time.perf_counter\<close>.
\<close>

datatype proc_behaviour =
    LaunchFails string
  | Exits rat int string
  | Hangs string

text \<open>
  \<^verbatim>\<open>subprocess.run(..., timeout=t)\<close>: the exit code, the captured output and the elapsed
  seconds of a process that exits within \<open>t\<close> seconds; \<^verbatim>\<open>TimeoutExpired\<close> for one that does
  not (it is killed, what it wrote is dropped).
\<close>

definition subprocess_run :: "rat \<Rightarrow> proc_behaviour \<Rightarrow> py_exn + int \<times> string \<times> rat" where
  "subprocess_run timeout b =
     (case b of
        LaunchFails msg \<Rightarrow> Inl (PyException msg)
      | Exits d rc out \<Rightarrow> if d \<le> timeout then Inr (rc, out, d) else Inl TimeoutExpired
      | Hangs out \<Rightarrow> Inl TimeoutExpired)"

text \<open>
  The world a run sees. Creating the output directories, writing the output files and
  printing are taken to succeed; the compiler is installed.
\<close>

record env =
  root :: string
  exe_ready :: "string \<Rightarrow> bool"
  src_exists :: "string \<Rightarrow> bool"
  gpp_returncode :: "string \<Rightarrow> int"
  dataset :: "dir_entry list option"
  graph_file :: "string \<times> string \<Rightarrow> file_state"
  process :: "string \<Rightarrow> string \<times> string \<Rightarrow> proc_behaviour"

text \<open>
  The state a run builds: the list \<^verbatim>\<open>results\<close>, the output files by path, and the two
  ledger files, absent until first written. A CSV file is its header row and its rows of
  values, as handed to the \<^verbatim>\<open>csv\<close> writer; the JSON file is the list dumped to it.
\<close>

record run_state =
  results :: "result list"
  outputs :: "string \<Rightarrow> string option"
  results_csv :: "(string list \<times> pyval list list) option"
  results_json :: "result list option"

definition initial_state :: run_state where
  "initial_state = \<lparr>results = [], outputs = (\<lambda>_. None), results_csv = None, results_json = None\<rparr>"

definition EXEC_NAMES :: "string list" where
  "EXEC_NAMES = [''p1'', ''p2'', ''p4'', ''p5'']"

definition fieldnames :: "string list" where
  "fieldnames = [''algorithm'', ''category'', ''file'', ''n'', ''m'', ''time'', ''exitcode'', ''output'']"

text \<open>\<^verbatim>\<open>DictWriter.writerow\<close>: the values of a row in the order of the field names.\<close>

definition dict_row :: "result \<Rightarrow> pyval list" where
  "dict_row r = [PStr (r_algorithm r), PStr (r_category r), PStr (r_file r), r_n r, r_m r, r_time r,
                 r_exitcode r, PStr (r_output r)]"

definition write_csv :: "result list \<Rightarrow> string list \<times> pyval list list" where
  "write_csv rs = (fieldnames, map dict_row rs)"

definition compile_if_needed :: "env \<Rightarrow> string \<Rightarrow> bool" where
  "compile_if_needed e name =
     (if exe_ready e name then True
      else if \<not> src_exists e name then False
      else if gpp_returncode e name \<noteq> 0 then False
      else True)"

text \<open>A \<^verbatim>\<open>for\<close> loop whose body may raise: the first exception ends the loop.\<close>

fun for_each :: "('s \<Rightarrow> 'a \<Rightarrow> py_exn + 's) \<Rightarrow> 'a list \<Rightarrow> 's \<Rightarrow> py_exn + 's" where
  "for_each body [] s = Inr s"
| "for_each body (x # xs) s = (case body s x of Inl e \<Rightarrow> Inl e | Inr s' \<Rightarrow> for_each body xs s')"

definition outfile_path :: "env \<Rightarrow> string \<Rightarrow> string \<Rightarrow> string \<Rightarrow> string" where
  "outfile_path e exe cat fname = root e @ ''/outputs/'' @ exe @ ''/'' @ cat @ ''/'' @ fname"

text \<open>
  \<^verbatim>\<open>try: ... except subprocess.TimeoutExpired: ... except Exception as e: ...\<close>: the
  handlers get what the block raises; what a handler raises leaves the statement.
\<close>

definition try_except ::
    "(py_exn + 'a) \<Rightarrow> (py_exn + 'a) \<Rightarrow> (string \<Rightarrow> py_exn + 'a) \<Rightarrow> py_exn + 'a" where
  "try_except block on_timeout on_exception =
     (case block of
        Inr x \<Rightarrow> Inr x
      | Inl TimeoutExpired \<Rightarrow> on_timeout
      | Inl (PyException msg) \<Rightarrow> on_exception msg)"

definition timeout_text :: string where
  "timeout_text = ''TIMEOUT'' @ [CHR 0x0A]"

definition error_text :: "string \<Rightarrow> string" where
  "error_text msg = ''ERROR: '' @ msg @ [CHR 0x0A]"

text \<open>
  The body of the inner loop of \<^verbatim>\<open>run_all.run\<close> for one algorithm and one file: the counts
  (left at \<^verbatim>\<open>None\<close> when building the graph raises), the \<^verbatim>\<open>try\<close> block with its two
  handlers, each writing the output file and appending a row, and the rewriting of
  \<^verbatim>\<open>results.csv\<close>.
\<close>

definition run_one :: "env \<Rightarrow> string \<Rightarrow> run_state \<Rightarrow> string \<times> string \<Rightarrow> py_exn + run_state" where
  "run_one e exe st cf =
     (let cat = fst cf; fname = snd cf;
          rel = cat @ ''/'' @ fname;
          (n0, m0) = (case build_graph_from_file (graph_file e cf) of
                        Inl ex \<Rightarrow> (PNone, PNone)
                      | Inr (n1, m1, G) \<Rightarrow> (PInt n1, PInt m1));
          outfile = outfile_path e exe cat fname;
          record_run = (\<lambda>content t x.
             Inr (st\<lparr>results := results st @
                         [\<lparr>r_algorithm = exe, r_category = cat, r_file = rel, r_n = n0, r_m = m0,
                           r_time = t, r_exitcode = x, r_output = outfile\<rparr>],
                      outputs := (outputs st)(outfile \<mapsto> content)\<rparr>))
      in case try_except
                (case subprocess_run 600 (process e exe cf) of
                   Inl ex \<Rightarrow> Inl ex
                 | Inr (rc, out, runtime) \<Rightarrow> record_run out (PFloat runtime) (PInt rc))
                (record_run timeout_text PNone (PStr ''timeout''))
                (\<lambda>msg. record_run (error_text msg) PNone (PStr ''error''))
         of Inl ex \<Rightarrow> Inl ex
          | Inr st' \<Rightarrow> Inr (st'\<lparr>results_csv := Some (write_csv (results st'))\<rparr>))"

text \<open>
  \<^verbatim>\<open>run_all.run\<close>: nothing is run or written when no executable is available; otherwise
  every available algorithm runs on every discovered file, then the ledger is written once
  more as CSV and once as JSON. (The plots drawn in between only read.)
\<close>

definition compiled_exes :: "env \<Rightarrow> string list" where
  "compiled_exes e = filter (compile_if_needed e) EXEC_NAMES"

definition run_all :: "env \<Rightarrow> py_exn + run_state" where
  "run_all e =
     (if compiled_exes e = [] then Inr initial_state
      else (case discover_dataset_files (dataset e) of
              Inl ex \<Rightarrow> Inl ex
            | Inr files \<Rightarrow>
                (case for_each (\<lambda>st exe. for_each (run_one e exe) files st) (compiled_exes e) initial_state of
                   Inl ex \<Rightarrow> Inl ex
                 | Inr st \<Rightarrow>
                     Inr (st\<lparr>results_csv := Some (write_csv (results st)),
                             results_json := Some (results st)\<rparr>))))"

text \<open>
  \<^verbatim>\<open>run_p1_only.run\<close> keeps the counts in the local variables \<^verbatim>\<open>n\<close> and \<^verbatim>\<open>m\<close>, always
  assigned together: \<open>counts\<close> is \<open>None\<close> while they are unbound. Reading an unbound
  variable raises \<^verbatim>\<open>UnboundLocalError\<close>.
\<close>

record p1_state = run_state +
  counts :: "(pyval \<times> pyval) option"

definition p1_initial_state :: p1_state where
  "p1_initial_state = \<lparr>results = [], outputs = (\<lambda>_. None), results_csv = None,
                         results_json = None, counts = None\<rparr>"

definition unbound_local_error :: "string \<Rightarrow> py_exn" where
  "unbound_local_error v =
     PyException (''cannot access local variable '' @ [CHR 0x27] @ v @ [CHR 0x27]
                  @ '' where it is not associated with a value'')"

text \<open>
  The counts after the header block of the loop body: assigned from the first line that is
  neither blank nor a comment and has two fields, set to \<^verbatim>\<open>None\<close> by the handler when
  anything raises, and left as they were when the loop finds no such line.
\<close>

definition p1_counts :: "(pyval \<times> pyval) option \<Rightarrow> file_state \<Rightarrow> (pyval \<times> pyval) option" where
  "p1_counts old fs =
     (case fs of
        Readable text \<Rightarrow>
          (case p1_header_loop (file_lines [] text) of
             None \<Rightarrow> old
           | Some (Inl ex) \<Rightarrow> Some (PNone, PNone)
           | Some (Inr (n1, m1)) \<Rightarrow> Some (PInt n1, PInt m1))
      | _ \<Rightarrow> Some (PNone, PNone))"

text \<open>
  The body of the loop of \<^verbatim>\<open>run_p1_only.run\<close> for one file. The row is built after the
  output file is written, in the \<^verbatim>\<open>try\<close> block and in each handler, and building it
  reads \<^verbatim>\<open>n\<close> and \<^verbatim>\<open>m\<close>.
\<close>

definition p1_one :: "env \<Rightarrow> p1_state \<Rightarrow> string \<times> string \<Rightarrow> py_exn + p1_state" where
  "p1_one e st cf =
     (let cat = fst cf; fname = snd cf;
          rel = cat @ ''/'' @ fname;
          nm = p1_counts (counts st) (graph_file e cf);
          outfile = outfile_path e ''p1'' cat fname;
          record_run = (\<lambda>content t x.
             case nm of
               None \<Rightarrow> Inl (unbound_local_error ''n'')
             | Some (n0, m0) \<Rightarrow>
                 Inr (st\<lparr>results := results st @
                             [\<lparr>r_algorithm = ''p1'', r_category = cat, r_file = rel, r_n = n0, r_m = m0,
                               r_time = t, r_exitcode = x, r_output = outfile\<rparr>],
                          outputs := (outputs st)(outfile \<mapsto> content),
                          counts := nm\<rparr>))
      in try_except
           (case subprocess_run 600 (process e ''p1'' cf) of
              Inl ex \<Rightarrow> Inl ex
            | Inr (rc, out, runtime) \<Rightarrow> record_run out (PFloat runtime) (PInt rc))
           (record_run timeout_text PNone (PStr ''timeout''))
           (\<lambda>msg. record_run (error_text msg) PNone (PStr ''error'')))"

text \<open>\<^verbatim>\<open>run_p1_only.run\<close>: \<^verbatim>\<open>p1_results.csv\<close> is written once, after the loop.\<close>

definition run_p1_only :: "env \<Rightarrow> py_exn + p1_state" where
  "run_p1_only e =
     (if \<not> compile_if_needed e ''p1'' then Inr p1_initial_state
      else (case discover_dataset_files (dataset e) of
              Inl ex \<Rightarrow> Inl ex
            | Inr files \<Rightarrow>
                (case for_each (p1_one e) files p1_initial_state of
                   Inl ex \<Rightarrow> Inl ex
                 | Inr st \<Rightarrow> Inr (st\<lparr>results_csv := Some (write_csv (results st))\<rparr>))))"

section \<open>Profiler report parser (\<^verbatim>\<open>parse_cachegrind_output\<close>, \<^verbatim>\<open>parse_cachegrind_for_test\<close>)\<close>

text \<open>The dictionary \<^verbatim>\<open>parse_cachegrind_output\<close> returns, with its eleven keys.\<close>

record cache_metrics =
  Ir :: int
  I1mr :: int
  ILmr :: int
  Dr :: int
  D1mr :: int
  DLmr :: int
  Dw :: int
  D1mw :: int
  DLmw :: int
  Bc :: int
  Bcm :: int

text \<open>
  The loop over the tokens of a totals line: a token counts when, commas removed, it is all
  digits and the token after it starts with an opening parenthesis and ends with a percent
  sign and a closing parenthesis.
\<close>

fun numbers_loop :: "string list \<Rightarrow> py_exn + int list" where
  "numbers_loop [] = Inr []"
| "numbers_loop (t # tokens) =
     (let token = replace_char CHR '','' [] t in
      if isdigit token
         \<and> (case tokens of [] \<Rightarrow> False | nxt # _ \<Rightarrow> startswith nxt ''('' \<and> endswith nxt ''%)'')
      then (case py_int token of
              None \<Rightarrow> Inl value_error
            | Some v \<Rightarrow> (case numbers_loop tokens of Inl ex \<Rightarrow> Inl ex | Inr numbers \<Rightarrow> Inr (v # numbers)))
      else numbers_loop tokens)"

text \<open>
  The loop over the lines in \<^verbatim>\<open>parse_cachegrind_output\<close>: it returns at the first totals line
  with eleven numbers and goes on after a totals line with fewer.
\<close>

fun totals_loop :: "string list \<Rightarrow> py_exn + cache_metrics option" where
  "totals_loop [] = Inr None"
| "totals_loop (line # lines) =
     (if contains line ''PROGRAM TOTALS''
      then (case numbers_loop (split line) of
              Inl ex \<Rightarrow> Inl ex
            | Inr numbers \<Rightarrow>
                if 11 \<le> length numbers
                then Inr (Some \<lparr>Ir = numbers ! 0, I1mr = numbers ! 1, ILmr = numbers ! 2,
                                Dr = numbers ! 3, D1mr = numbers ! 4, DLmr = numbers ! 5,
                                Dw = numbers ! 6, D1mw = numbers ! 7, DLmw = numbers ! 8,
                                Bc = numbers ! 9, Bcm = numbers ! 10\<rparr>)
                else totals_loop lines)
      else totals_loop lines)"

text \<open>
  \<^verbatim>\<open>parse_cachegrind_output\<close>, given what running \<^verbatim>\<open>cg_annotate\<close> gives: an exception, or
  the text it printed. Every exception is caught and makes the result \<^verbatim>\<open>None\<close>. (The
  message printed then is left out.)
\<close>

definition parse_cachegrind_output :: "py_exn + string \<Rightarrow> cache_metrics option" where
  "parse_cachegrind_output annotated =
     (case annotated of
        Inl ex \<Rightarrow> None
      | Inr output \<Rightarrow>
          (case totals_loop (split_on (CHR 0x0A) [] output) of
             Inl ex \<Rightarrow> None
           | Inr r \<Rightarrow> r))"

text \<open>The row \<^verbatim>\<open>parse_cachegrind_for_test\<close> appends for an algorithm.\<close>

record cache_row =
  c_algorithm :: string
  c_instructions :: int
  c_l1_i_misses :: int
  c_l1_d_misses :: int
  c_l1_total_misses :: int
  c_branches :: int
  c_branch_mispredicts :: int

text \<open>
  The loop over the lines in \<^verbatim>\<open>parse_cachegrind_for_test\<close>: it stops at the first totals
  line, whether or not that line gives a row.
\<close>

fun first_totals_loop :: "string \<Rightarrow> string list \<Rightarrow> py_exn + cache_row option" where
  "first_totals_loop algo [] = Inr None"
| "first_totals_loop algo (line # lines) =
     (if contains line ''PROGRAM TOTALS''
      then (case numbers_loop (split line) of
              Inl ex \<Rightarrow> Inl ex
            | Inr numbers \<Rightarrow>
                if 11 \<le> length numbers
                then Inr (Some \<lparr>c_algorithm = algo, c_instructions = numbers ! 0,
                                c_l1_i_misses = numbers ! 1, c_l1_d_misses = numbers ! 4,
                                c_l1_total_misses = numbers ! 1 + numbers ! 4,
                                c_branches = numbers ! 9, c_branch_mispredicts = numbers ! 10\<rparr>)
                else Inr None)
      else first_totals_loop algo lines)"

definition cache_row_for_test :: "string \<Rightarrow> py_exn + string \<Rightarrow> cache_row option" where
  "cache_row_for_test algo annotated =
     (case annotated of
        Inl ex \<Rightarrow> None
      | Inr output \<Rightarrow>
          (case first_totals_loop algo (split_on (CHR 0x0A) [] output) of
             Inl ex \<Rightarrow> None
           | Inr r \<Rightarrow> r))"

section \<open>Notions used to state the properties\<close>

text \<open>
  The classification as an ordered list of rules: the name prefixes, tried first and in this
  order, then the keywords that make a name a real-world test.
\<close>

definition prefix_rules :: "(string \<times> string) list" where
  "prefix_rules = [(''dense'', ''dense''), (''sparse'', ''sparse''), (''small'', ''small''),
                   (''large'', ''large''), (''tree'', ''tree_like''), (''highly'', ''highly_connected'')]"

definition category_keywords :: "string list" where
  "category_keywords = [''road'', ''com'', ''wiki'', ''soc'', ''web'']"

definition rule_category :: "string \<Rightarrow> string option" where
  "rule_category name =
     (case find (\<lambda>(p, c). startswith name p) prefix_rules of
        Some (p, c) \<Rightarrow> Some c
      | None \<Rightarrow> if list_ex (contains name) category_keywords then Some ''real_world'' else None)"

text \<open>
  What one run leaves behind, by what the process does: the text of the output file, the
  \<open>time\<close> and the \<open>exitcode\<close> of the row.
\<close>

definition run_outcome :: "proc_behaviour \<Rightarrow> string \<times> pyval \<times> pyval" where
  "run_outcome b =
     (case b of
        LaunchFails msg \<Rightarrow> (error_text msg, PNone, PStr ''error'')
      | Exits d rc out \<Rightarrow>
          if d \<le> 600 then (out, PFloat d, PInt rc) else (timeout_text, PNone, PStr ''timeout'')
      | Hangs out \<Rightarrow> (timeout_text, PNone, PStr ''timeout''))"

text \<open>
  The counts \<^verbatim>\<open>run_all\<close> records for a file in a given state.
\<close>

definition graph_counts :: "file_state \<Rightarrow> pyval \<times> pyval" where
  "graph_counts fs =
     (case build_graph_from_file fs of
        Inl ex \<Rightarrow> (PNone, PNone)
      | Inr (n1, m1, G) \<Rightarrow> (PInt n1, PInt m1))"

text \<open>
  The row \<^verbatim>\<open>run_all\<close> appends for one algorithm and one file.
\<close>

definition run_row :: "env \<Rightarrow> string \<Rightarrow> string \<times> string \<Rightarrow> result" where
  "run_row e exe cf =
     \<lparr>r_algorithm = exe, r_category = fst cf, r_file = fst cf @ ''/'' @ snd cf,
      r_n = fst (graph_counts (graph_file e cf)), r_m = snd (graph_counts (graph_file e cf)),
      r_time = fst (snd (run_outcome (process e exe cf))),
      r_exitcode = snd (snd (run_outcome (process e exe cf))),
      r_output = outfile_path e exe (fst cf) (snd cf)\<rparr>"

text \<open>
  The body of the nested loops of \<^verbatim>\<open>run_all\<close> on a pair of an algorithm and a file.
\<close>

definition run_pair :: "env \<Rightarrow> run_state \<Rightarrow> string \<times> string \<times> string \<Rightarrow> py_exn + run_state" where
  "run_pair e st x = run_one e (fst x) st (snd x)"

text \<open>
  The row \<^verbatim>\<open>run_p1_only\<close> appends for one file when the counts are bound.
\<close>

definition p1_row :: "env \<Rightarrow> pyval \<times> pyval \<Rightarrow> string \<times> string \<Rightarrow> result" where
  "p1_row e nm cf =
     \<lparr>r_algorithm = ''p1'', r_category = fst cf, r_file = fst cf @ ''/'' @ snd cf,
      r_n = fst nm, r_m = snd nm,
      r_time = fst (snd (run_outcome (process e ''p1'' cf))),
      r_exitcode = snd (snd (run_outcome (process e ''p1'' cf))),
      r_output = outfile_path e ''p1'' (fst cf) (snd cf)\<rparr>"

text \<open>
  A process that was launched and does not exit within \<open>t\<close> seconds.
\<close>

definition overruns :: "rat \<Rightarrow> proc_behaviour \<Rightarrow> bool" where
  "overruns t b = (case b of LaunchFails msg \<Rightarrow> False | Exits d rc out \<Rightarrow> t < d | Hangs out \<Rightarrow> True)"

text \<open>
  The key of a row: the algorithm and the file.
\<close>

definition record_key :: "result \<Rightarrow> string \<times> string" where
  "record_key r = (r_algorithm r, r_file r)"

text \<open>
  The order of discovered files: by category name, then by file name.
\<close>

definition file_before :: "string \<times> string \<Rightarrow> string \<times> string \<Rightarrow> bool" where
  "file_before a b = (fst a < fst b \<or> (fst a = fst b \<and> snd a < snd b))"

text \<open>
  A listing as a file system produces it: the names within one directory differ and no
  name contains a slash.
\<close>

definition well_formed_listing :: "dir_entry list \<Rightarrow> bool" where
  "well_formed_listing listing =
     (distinct (map entry_name listing)
      \<and> list_all (\<lambda>c. distinct (children c) \<and> CHR ''/'' \<notin> set (entry_name c)
                         \<and> list_all (\<lambda>f. CHR ''/'' \<notin> set f) (children c)) listing)"

text \<open>
  The directory a listing shows, without the order of the listing: the entries with the
  set of names each holds.
\<close>

definition directory_of :: "dir_entry list \<Rightarrow> (string \<times> bool \<times> string set) set" where
  "directory_of listing = (\<lambda>c. (entry_name c, is_dir c, set (children c))) ` set listing"

text \<open>
  The files discovered in an existing dataset directory.
\<close>

definition discovered :: "dir_entry list \<Rightarrow> (string \<times> string) list" where
  "discovered listing = concat (map category_files (filter is_dir (sort_key entry_name listing)))"

text \<open>
  The two integers a line starts with, when it has at least two fields and the first two
  are integers.
\<close>

definition header_fields :: "string \<Rightarrow> (int \<times> int) option" where
  "header_fields l =
     (case split (strip l) of
        a # b # rest \<Rightarrow> (case (py_int a, py_int b) of (Some n, Some m) \<Rightarrow> Some (n, m) | _ \<Rightarrow> None)
      | _ \<Rightarrow> None)"

definition is_comment :: "string \<Rightarrow> bool" where
  "is_comment l = startswith (strip l) ''#''"

text \<open>
  The lines \<^verbatim>\<open>run_p1_only\<close> takes the counts from: not blank, not a comment, at least
  two fields.
\<close>

definition p1_candidate :: "string \<Rightarrow> bool" where
  "p1_candidate l = (strip l \<noteq> [] \<and> \<not> is_comment l \<and> 2 \<le> length (split (strip l)))"

text \<open>
  The counts \<^verbatim>\<open>read_header_and_edges\<close> infers from a list of edges.
\<close>

definition inferred_counts :: "(int \<times> int) list \<Rightarrow> pyval \<times> pyval" where
  "inferred_counts edges =
     (if edges = [] then (PInt 0, PInt 0)
      else (PInt (Max (set (map (\<lambda>(u, v). max u v) edges)) + 1), PInt (int (length edges))))"

text \<open>
  Each token of a line with the token after it, if any.
\<close>

definition followed_by :: "string list \<Rightarrow> (string \<times> string option) list" where
  "followed_by ts = zip ts (map Some (tl ts) @ [None])"

text \<open>
  A token that counts on a totals line: all digits once its commas are removed, and
  followed by a token that starts with \<^verbatim>\<open>(\<close> and ends with \<^verbatim>\<open>%)\<close>.
\<close>

definition counts_as_number :: "string \<times> string option \<Rightarrow> bool" where
  "counts_as_number p =
     (isdigit (replace_char CHR '','' [] (fst p))
      \<and> (case snd p of None \<Rightarrow> False | Some nxt \<Rightarrow> startswith nxt ''('' \<and> endswith nxt ''%)''))"

text \<open>
  The integers of the tokens that count, in the order of the line.
\<close>

definition totals_numbers :: "string \<Rightarrow> int list" where
  "totals_numbers line =
     map (\<lambda>p. dec_value (replace_char CHR '','' [] (fst p)))
         (filter counts_as_number (followed_by (split line)))"

definition is_totals_line :: "string \<Rightarrow> bool" where
  "is_totals_line line = contains line ''PROGRAM TOTALS''"

text \<open>
  The metrics whose eleven fields are the first eleven of a list of integers.
\<close>

definition metrics_of :: "int list \<Rightarrow> cache_metrics" where
  "metrics_of ns = \<lparr>Ir = ns ! 0, I1mr = ns ! 1, ILmr = ns ! 2, Dr = ns ! 3, D1mr = ns ! 4,
                    DLmr = ns ! 5, Dw = ns ! 6, D1mw = ns ! 7, DLmw = ns ! 8, Bc = ns ! 9,
                    Bcm = ns ! 10\<rparr>"

text \<open>
  The eleven fields of the metrics in their declared order.
\<close>

definition fields :: "cache_metrics \<Rightarrow> int list" where
  "fields r = [Ir r, I1mr r, ILmr r, Dr r, D1mr r, DLmr r, Dw r, D1mw r, DLmw r, Bc r, Bcm r]"

text \<open>
  A percentage token in the strict form \<^verbatim>\<open>(<digits>.<digits>%)\<close>, and the integers of a line
  that are followed by such a token.
\<close>

definition is_percentage :: "string \<Rightarrow> bool" where
  "is_percentage t =
     (case t of
        [] \<Rightarrow> False
      | c # r \<Rightarrow>
          c = CHR ''('' \<and> takeWhile is_digit r \<noteq> []
          \<and> (case dropWhile is_digit r of
                [] \<Rightarrow> False
              | d # r2 \<Rightarrow> d = CHR ''.'' \<and> takeWhile is_digit r2 \<noteq> [] \<and> dropWhile is_digit r2 = ''%)''))"

definition percentage_numbers :: "string \<Rightarrow> int list" where
  "percentage_numbers line =
     map (\<lambda>p. dec_value (replace_char CHR '','' [] (fst p)))
         (filter (\<lambda>p. isdigit (replace_char CHR '','' [] (fst p))
                      \<and> (case snd p of None \<Rightarrow> False | Some nxt \<Rightarrow> is_percentage nxt))
                 (followed_by (split line)))"

text \<open>
  Two reports: a totals line whose first integer is followed by a token that is not a
  percentage in the strict form, and the end of a report as \<^verbatim>\<open>cg_annotate\<close> prints it.
\<close>

definition loose_totals_line :: string where
  "loose_totals_line =
     ''99 (n/a%) 1 (1.0%) 2 (2.0%) 3 (3.0%) 4 (4.0%) 5 (5.0%) 6 (6.0%) 7 (7.0%) 8 (8.0%) 9 (9.0%) 10 (10.0%) 11 (11.0%)  PROGRAM TOTALS''"

definition annotate_output :: string where
  "annotate_output =
     ''Ir  I1mr  ILmr  Dr  D1mr  DLmr  Dw  D1mw  DLmw  Bc  Bcm'' @ [CHR 0x0A]
     @ ''2,612,345 (100.0%) 1,402 (100.0%) 1,377 (100.0%) 621,004 (100.0%) 15,210 (100.0%) 9,872 (100.0%) 301,776 (100.0%) 1,934 (100.0%) 1,640 (100.0%) 410,223 (100.0%) 18,002 (100.0%)  PROGRAM TOTALS''
     @ [CHR 0x0A]"

subsection \<open>Reports built from their parts\<close>

text \<open>
  A resource-usage report taken apart: a test block has its name, the text between the
  name and the memory line, the digits of the memory line and the text after them; a
  section has the digit of its algorithm, the text before its first test and its blocks; a
  report has the text before its first section and its sections.
\<close>

datatype report_block = Block (b_name: string) (b_before: string) (b_digits: string) (b_after: string)

datatype report_section = Section (s_digit: char) (s_intro: string) (s_blocks: "report_block list")

definition memory_label :: string where
  "memory_label = ''Maximum resident set size (kbytes): ''"

definition block_data :: "report_block \<Rightarrow> string" where
  "block_data b = b_before b @ memory_label @ b_digits b @ b_after b"

definition render_block :: "report_block \<Rightarrow> string" where
  "render_block b = ''Test: '' @ b_name b @ block_data b"

definition section_text :: "report_section \<Rightarrow> string" where
  "section_text s = s_intro s @ concat (map render_block (s_blocks s))"

definition render_section :: "report_section \<Rightarrow> string" where
  "render_section s = ''Algorithm: p'' @ [s_digit s] @ section_text s"

definition render_report :: "string \<Rightarrow> report_section list \<Rightarrow> string" where
  "render_report preamble secs = preamble @ concat (map render_section secs)"

text \<open>
  A text without a marker of either kind.
\<close>

definition quiet :: "string \<Rightarrow> bool" where
  "quiet t = (\<not> contains t ''Algorithm: p'' \<and> \<not> contains t ''Test: '')"

text \<open>
  The parts are well formed when the name is a run of word characters followed by
  whitespace, the digits are digits, their integer fits a double, no digit follows them, and
  the texts in between hold no marker (nor, before the memory line, its label); the
  algorithm is named by a digit.
\<close>

definition well_formed_block :: "report_block \<Rightarrow> bool" where
  "well_formed_block b =
     (b_name b \<noteq> [] \<and> list_all is_word (b_name b)
      \<and> b_before b \<noteq> [] \<and> isspace (hd (b_before b))
      \<and> quiet (b_before b) \<and> \<not> contains (b_before b) memory_label
      \<and> isdigit (b_digits b) \<and> \<not> float_overflow (dec_value (b_digits b))
      \<and> list_all (\<lambda>c. \<not> is_digit c) (take 1 (b_after b)) \<and> quiet (b_after b))"

definition well_formed_section :: "report_section \<Rightarrow> bool" where
  "well_formed_section s =
     (is_digit (s_digit s) \<and> quiet (s_intro s) \<and> list_all well_formed_block (s_blocks s))"

definition well_formed_report :: "string \<Rightarrow> report_section list \<Rightarrow> bool" where
  "well_formed_report preamble secs = (quiet preamble \<and> list_all well_formed_section secs)"

text \<open>
  The rows a report is to give: one for every block whose name has a category, in the
  order of the report.
\<close>

definition block_rows :: "string \<Rightarrow> report_block \<Rightarrow> memory_row list" where
  "block_rows algo b =
     (case categorise (b_name b) of
        None \<Rightarrow> []
      | Some cat \<Rightarrow> [\<lparr>mem_algorithm = algo, mem_test = b_name b, mem_category = cat,
                       memory_kb = dec_value (b_digits b),
                       memory_mb = of_int (dec_value (b_digits b)) / 1024\<rparr>])"

definition section_rows :: "report_section \<Rightarrow> memory_row list" where
  "section_rows s = concat (map (block_rows [CHR ''p'', s_digit s]) (s_blocks s))"

definition report_rows :: "report_section list \<Rightarrow> memory_row list" where
  "report_rows secs = concat (map section_rows secs)"

text \<open>
  No match of a pattern starts within \<open>u\<close> when \<open>u\<close> is followed by \<open>v\<close>.
\<close>

fun skips :: "(string \<Rightarrow> 'a option) \<Rightarrow> string \<Rightarrow> string \<Rightarrow> bool" where
  "skips m [] v = True"
| "skips m (c # u) v = (m (c # u @ v) = None \<and> skips m u v)"

text \<open>
  The report of the specification's example.
\<close>

definition example_report :: "report_section list" where
  "example_report =
     [Section (CHR ''1'') [CHR 0x0A]
        [Block ''dense_03'' [CHR 0x0A] ''2048'' [CHR 0x0A]]]"

subsection \<open>A small corpus\<close>

text \<open>
  A dataset directory with two categories and a stray file, listed in two orders; three
  graph texts (a triangle with its description line, a path, a file without header); and a
  world in which \<^verbatim>\<open>p1\<close> is built, \<^verbatim>\<open>p2\<close> compiles, \<^verbatim>\<open>p4\<close> does not and
  \<^verbatim>\<open>p5\<close> has no source, one file cannot be read, and the processes exit late, cannot be
  launched, or exit at once.
\<close>

definition example_listing :: "dir_entry list" where
  "example_listing =
     [\<lparr>entry_name = ''small'', is_dir = True, children = [''b.txt'', ''a.txt'', ''notes.md'']\<rparr>,
      \<lparr>entry_name = ''README.md'', is_dir = False, children = []\<rparr>,
      \<lparr>entry_name = ''dense'', is_dir = True, children = [''d.txt'']\<rparr>]"

definition example_listing_reordered :: "dir_entry list" where
  "example_listing_reordered =
     [\<lparr>entry_name = ''dense'', is_dir = True, children = [''d.txt'']\<rparr>,
      \<lparr>entry_name = ''small'', is_dir = True, children = [''notes.md'', ''a.txt'', ''b.txt'']\<rparr>,
      \<lparr>entry_name = ''README.md'', is_dir = False, children = []\<rparr>]"

definition k3_text :: string where
  "k3_text = ''# K3'' @ [CHR 0x0A] @ ''3 3'' @ [CHR 0x0A] @ ''0 1'' @ [CHR 0x0A]
             @ ''1 2'' @ [CHR 0x0A] @ ''0 2'' @ [CHR 0x0A]"

definition path_text :: string where
  "path_text = ''3 2'' @ [CHR 0x0A] @ ''0 1'' @ [CHR 0x0A] @ ''1 2'' @ [CHR 0x0A]"

definition headerless_text :: string where
  "headerless_text = ''graph'' @ [CHR 0x0A] @ ''0 1'' @ [CHR 0x0A] @ ''1 2'' @ [CHR 0x0A]"

definition example_env :: env where
  "example_env =
     \<lparr>root = ''/bench'',
      exe_ready = (\<lambda>name. name = ''p1''),
      src_exists = (\<lambda>name. name = ''p2'' \<or> name = ''p4''),
      gpp_returncode = (\<lambda>name. if name = ''p2'' then 0 else 1),
      dataset = Some example_listing,
      graph_file = (\<lambda>cf. if cf = (''dense'', ''d.txt'') then Readable k3_text
                         else if cf = (''small'', ''a.txt'') then Readable path_text
                         else Absent),
      process = (\<lambda>exe cf. if cf = (''dense'', ''d.txt'') then Exits 725 0 ''partial''
                          else if cf = (''small'', ''b.txt'') then LaunchFails ''Permission denied''
                          else Exits (1 / 2) 0 ''ok'')\<rparr>"

section \<open>Properties of the resource-usage parser\<close>

lemma categorise_rules: "categorise name = rule_category name"
  by (simp add: categorise_def rule_category_def prefix_rules_def category_keywords_def)

lemma block_row_category:
  "block_row algo name data = Inr (Some r) \<Longrightarrow>
     categorise name = Some (mem_category r) \<and> mem_test r = name \<and> mem_algorithm r = algo"
  by (auto simp: block_row_def split: option.splits if_splits)

lemma tests_loop_rows:
  "tests_loop algo blocks data = Inr rows \<Longrightarrow>
   \<forall>r \<in> set data. categorise (mem_test r) = Some (mem_category r) \<Longrightarrow>
   \<forall>r \<in> set rows. categorise (mem_test r) = Some (mem_category r)"
proof (induction algo blocks data rule: tests_loop.induct)
  case (1 algo data)
  then show ?case by simp
next
  case (2 algo test_name test_data rest data)
  show ?case
  proof (cases "block_row algo test_name test_data")
    case (Inl e)
    with 2 show ?thesis by simp
  next
    case (Inr ro)
    show ?thesis
    proof (cases ro)
      case None
      with 2 Inr show ?thesis by simp
    next
      case (Some r)
      with Inr have "categorise (mem_test r) = Some (mem_category r)"
        using block_row_category by blast
      with 2 Inr Some show ?thesis by simp
    qed
  qed
qed

lemma algorithms_loop_rows:
  "algorithms_loop secs data = Inr rows \<Longrightarrow>
   \<forall>r \<in> set data. categorise (mem_test r) = Some (mem_category r) \<Longrightarrow>
   \<forall>r \<in> set rows. categorise (mem_test r) = Some (mem_category r)"
proof (induction secs data rule: algorithms_loop.induct)
  case (1 data)
  then show ?case by simp
next
  case (2 algo sect rest data)
  then show ?case
    by (auto split: sum.splits dest: tests_loop_rows)
qed

lemma parse_rows_categorised:
  assumes "parse_performance_metrics p st = (printed, Inr (Some rows))"
  shows "\<forall>r \<in> set rows. categorise (mem_test r) = Some (mem_category r)"
proof (cases st)
  case Absent
  with assms show ?thesis by (simp add: parse_performance_metrics_def)
next
  case (Unreadable e)
  with assms show ?thesis by (simp add: parse_performance_metrics_def)
next
  case (Readable content)
  show ?thesis
  proof (cases "algorithms_loop (marker_pairs (tl (split_algorithms [] content))) []")
    case (Inl e)
    with assms Readable show ?thesis by (simp add: parse_performance_metrics_def)
  next
    case (Inr data)
    with assms Readable have "rows = data"
      by (simp add: parse_performance_metrics_def split: if_splits)
    with Inr show ?thesis
      using algorithms_loop_rows [of _ "[]" rows] by simp
  qed
qed

text \<open>
  Claim C10. The category of a test name is decided by an ordered list of rules: the six
  name prefixes are tried first, and a name that starts with one of them gets that
  prefix's category, never \<open>real_world\<close>, whatever else it contains; a name that starts
  with none of them is \<open>real_world\<close> exactly when it contains one of the five keywords,
  and has no category otherwise. A name without a category adds no row, and every row of
  a parsed report carries the category of its test name.
\<close>

theorem categorise_priority:
  "categorise name = rule_category name
   \<and> (list_ex (\<lambda>(p, c). startswith name p) prefix_rules \<longrightarrow>
        categorise name \<in> Some ` snd ` set prefix_rules \<and> categorise name \<noteq> Some ''real_world'')
   \<and> (\<not> list_ex (\<lambda>(p, c). startswith name p) prefix_rules \<longrightarrow>
        categorise name = (if list_ex (contains name) category_keywords then Some ''real_world'' else None))
   \<and> (categorise name = None \<longrightarrow> (\<forall>algo test_data r. block_row algo name test_data \<noteq> Inr (Some r)))
   \<and> (parse_performance_metrics p st = (printed, Inr (Some rows)) \<longrightarrow>
        (\<forall>r \<in> set rows. categorise (mem_test r) = Some (mem_category r)))"
proof (intro conjI impI)
  show "categorise name = rule_category name" by (rule categorise_rules)
next
  assume "list_ex (\<lambda>(p, c). startswith name p) prefix_rules"
  then show "categorise name \<in> Some ` snd ` set prefix_rules"
    by (auto simp: categorise_def prefix_rules_def)
next
  assume "list_ex (\<lambda>(p, c). startswith name p) prefix_rules"
  then show "categorise name \<noteq> Some ''real_world''"
    by (auto simp: categorise_def prefix_rules_def)
next
  assume "\<not> list_ex (\<lambda>(p, c). startswith name p) prefix_rules"
  then show "categorise name = (if list_ex (contains name) category_keywords then Some ''real_world'' else None)"
    by (simp add: categorise_def prefix_rules_def category_keywords_def)
next
  assume "categorise name = None"
  then show "\<forall>algo test_data r. block_row algo name test_data \<noteq> Inr (Some r)"
    using block_row_category by fastforce
next
  assume "parse_performance_metrics p st = (printed, Inr (Some rows))"
  then show "\<forall>r \<in> set rows. categorise (mem_test r) = Some (mem_category r)"
    by (rule parse_rows_categorised)
qed

theorem categorise_priority_witness:
  "categorise ''dense_road_01'' = Some ''dense''
   \<and> contains ''dense_road_01'' ''road''
   \<and> categorise ''web_02'' = Some ''real_world''
   \<and> categorise ''misc_03'' = None
   \<and> block_row ''p1'' ''misc_03'' '' Maximum resident set size (kbytes): 77'' = Inr None"
proof -
  have a: "list_ex (\<lambda>(p, c). startswith ''dense_road_01'' p) prefix_rules" by code_simp
  have b: "\<not> list_ex (\<lambda>(p, c). startswith ''web_02'' p) prefix_rules" by code_simp
  have c: "\<not> list_ex (\<lambda>(p, c). startswith ''misc_03'' p) prefix_rules" by code_simp
  have d: "list_ex (contains ''web_02'') category_keywords" by code_simp
  have e: "\<not> list_ex (contains ''misc_03'') category_keywords" by code_simp
  have f: "rule_category ''dense_road_01'' = Some ''dense''" by code_simp
  have g: "contains ''dense_road_01'' ''road''" by code_simp
  from categorise_priority [of "''dense_road_01''"] f
  have 1: "categorise ''dense_road_01'' = Some ''dense''" by metis
  from categorise_priority [of "''web_02''"] b
  have "categorise ''web_02'' = (if list_ex (contains ''web_02'') category_keywords then Some ''real_world'' else None)"
    by blast
  with d have 2: "categorise ''web_02'' = Some ''real_world''" by simp
  from categorise_priority [of "''misc_03''"] c
  have "categorise ''misc_03'' = (if list_ex (contains ''misc_03'') category_keywords then Some ''real_world'' else None)"
    by blast
  with e have 3: "categorise ''misc_03'' = None" by simp
  have 4: "block_row ''p1'' ''misc_03'' '' Maximum resident set size (kbytes): 77'' = Inr None"
    by code_simp
  from 1 g 2 3 4 show ?thesis by simp
qed

text \<open>
  Claim C9, as amended. When the report file does not exist the parser raises nothing: it
  prints one line, \<^verbatim>\<open>Error: <path> not found!\<close>, and returns \<^verbatim>\<open>None\<close>, the value it
  also returns for a report without any usable block. It never returns an empty table.
\<close>

theorem parse_absent_report:
  "parse_performance_metrics metrics_file Absent
     = ([''Error: '' @ metrics_file @ '' not found!''], Inr None)
   \<and> snd (parse_performance_metrics metrics_file st) \<noteq> Inr (Some [])"
  by (simp add: parse_performance_metrics_def split: file_state.splits sum.splits)

theorem parse_absent_report_counterexample:
  "snd (parse_performance_metrics ''performance_metrics.txt'' Absent) \<noteq> Inr (Some [])"
  by (simp add: parse_performance_metrics_def)

section \<open>Properties of corpus discovery\<close>

lemma file_before_less: "file_before a b = (a < b)"
  by (auto simp: file_before_def less_prod_def)

lemma sorted_wrt_concat_map:
  assumes "sorted_wrt (\<lambda>a b. key a < key b) cs"
    and "\<And>c. c \<in> set cs \<Longrightarrow> sorted_wrt R (g c)"
    and "\<And>c c' x y. c \<in> set cs \<Longrightarrow> c' \<in> set cs \<Longrightarrow> key c < key c' \<Longrightarrow> x \<in> set (g c) \<Longrightarrow> y \<in> set (g c') \<Longrightarrow> R x y"
  shows "sorted_wrt R (concat (map g cs))"
  using assms
proof (induction cs)
  case Nil
  show ?case by simp
next
  case (Cons c cs)
  have "sorted_wrt R (concat (map g cs))"
  proof (rule Cons.IH)
    show "sorted_wrt (\<lambda>a b. key a < key b) cs" using Cons.prems(1) by simp
  next
    fix c' assume "c' \<in> set cs"
    then show "sorted_wrt R (g c')" using Cons.prems(2) by simp
  next
    fix c1 c2 x y
    assume "c1 \<in> set cs" "c2 \<in> set cs" "key c1 < key c2" "x \<in> set (g c1)" "y \<in> set (g c2)"
    then show "R x y" using Cons.prems(3) [of c1 c2 x y] by simp
  qed
  moreover have "sorted_wrt R (g c)" using Cons.prems(2) by simp
  moreover have "\<forall>x \<in> set (g c). \<forall>y \<in> set (concat (map g cs)). R x y"
  proof (intro ballI)
    fix x y assume x: "x \<in> set (g c)" and y: "y \<in> set (concat (map g cs))"
    then obtain c' where c': "c' \<in> set cs" "y \<in> set (g c')" by auto
    with Cons.prems(1) have "key c < key c'" by auto
    with Cons.prems(3) [of c c' x y] x c' show "R x y" by simp
  qed
  ultimately show ?case by (simp add: sorted_wrt_append)
qed

lemma categories_sorted:
  assumes "distinct (map entry_name listing)"
  shows "sorted_wrt (\<lambda>a b. entry_name a < entry_name b) (filter is_dir (sort_key entry_name listing))"
proof -
  have "sorted (map entry_name (sort_key entry_name listing))" by (rule sorted_sort_key)
  moreover have "distinct (map entry_name (sort_key entry_name listing))"
    using assms by (simp add: distinct_map)
  ultimately have "sorted_wrt (<) (map entry_name (sort_key entry_name listing))"
    by (simp add: strict_sorted_iff)
  then have "sorted_wrt (\<lambda>a b. entry_name a < entry_name b) (sort_key entry_name listing)"
    by (simp add: sorted_wrt_map)
  then show ?thesis by (rule sorted_wrt_filter)
qed

lemma category_files_sorted:
  assumes "distinct (children c)"
  shows "sorted_wrt file_before (category_files c)"
proof -
  have "sorted_wrt (<) (sort (filter (\<lambda>f. endswith f ''.txt'') (children c)))"
    using assms by (simp add: strict_sorted_iff)
  then show ?thesis
    by (simp add: category_files_def sorted_wrt_map file_before_def)
qed

lemma set_category_files:
  "set (category_files c) = {(entry_name c, f) | f. f \<in> set (children c) \<and> endswith f ''.txt''}"
  by (auto simp: category_files_def)

lemma discovered_sorted:
  assumes "well_formed_listing listing"
  shows "sorted_wrt file_before (discovered listing)"
  unfolding discovered_def
proof (rule sorted_wrt_concat_map [where key = entry_name])
  show "sorted_wrt (\<lambda>a b. entry_name a < entry_name b) (filter is_dir (sort_key entry_name listing))"
    using assms by (simp add: categories_sorted well_formed_listing_def)
next
  fix c assume "c \<in> set (filter is_dir (sort_key entry_name listing))"
  then have "distinct (children c)"
    using assms by (auto simp: well_formed_listing_def list_all_iff)
  then show "sorted_wrt file_before (category_files c)" by (rule category_files_sorted)
next
  fix c c' x y
  assume "entry_name c < entry_name c'" "x \<in> set (category_files c)" "y \<in> set (category_files c')"
  then show "file_before x y"
    by (auto simp: set_category_files file_before_def)
qed

lemma set_discovered:
  "set (discovered listing) =
     {(nm, f) | nm f F. (nm, True, F) \<in> directory_of listing \<and> f \<in> F \<and> endswith f ''.txt''}"
  by (auto simp: discovered_def set_category_files directory_of_def)

lemma discovered_deterministic:
  assumes "well_formed_listing l1" "well_formed_listing l2" "directory_of l1 = directory_of l2"
  shows "discovered l1 = discovered l2"
proof -
  have "sorted_wrt (<) (discovered l1)" "sorted_wrt (<) (discovered l2)"
    using discovered_sorted [OF assms(1)] discovered_sorted [OF assms(2)]
    by (simp_all add: file_before_less [abs_def])
  moreover have "set (discovered l1) = set (discovered l2)"
    by (simp add: set_discovered assms(3))
  ultimately show ?thesis by (metis strict_sorted_equal)
qed

lemma discovered_categories:
  assumes "well_formed_listing listing" "cf \<in> set (discovered listing)"
  shows "CHR ''/'' \<notin> set (fst cf)"
  using assms
  by (auto simp: discovered_def set_category_files well_formed_listing_def list_all_iff)

lemma discovered_distinct:
  assumes "well_formed_listing listing"
  shows "distinct (discovered listing)"
proof -
  have "sorted_wrt (<) (discovered listing)"
    using discovered_sorted [OF assms] by (simp add: file_before_less [abs_def])
  then show ?thesis by (simp add: strict_sorted_iff)
qed

text \<open>
  Claim C6. For a dataset directory as a file system lists it, discovery returns the
  pairs of category and file sorted by category name and then by file name; and two
  listings of the same directory, in whatever order the file system yields the entries,
  give the same sequence.
\<close>

theorem discovery_sorted_and_deterministic:
  assumes "well_formed_listing l1" "well_formed_listing l2" "directory_of l1 = directory_of l2"
  shows "\<exists>files. discover_dataset_files (Some l1) = Inr files
           \<and> sorted_wrt file_before files
           \<and> discover_dataset_files (Some l2) = Inr files"
proof -
  have "discover_dataset_files (Some l1) = Inr (discovered l1)"
    "discover_dataset_files (Some l2) = Inr (discovered l2)"
    by (simp_all add: discover_dataset_files_def discovered_def)
  moreover have "discovered l1 = discovered l2" using assms by (rule discovered_deterministic)
  moreover have "sorted_wrt file_before (discovered l1)" using assms(1) by (rule discovered_sorted)
  ultimately show ?thesis by simp
qed

theorem discovery_sorted_and_deterministic_witness:
  "well_formed_listing example_listing
   \<and> well_formed_listing example_listing_reordered
   \<and> directory_of example_listing = directory_of example_listing_reordered
   \<and> discover_dataset_files (Some example_listing)
       = Inr [(''dense'', ''d.txt''), (''small'', ''a.txt''), (''small'', ''b.txt'')]
   \<and> discover_dataset_files (Some example_listing_reordered)
       = Inr [(''dense'', ''d.txt''), (''small'', ''a.txt''), (''small'', ''b.txt'')]
   \<and> sorted_wrt file_before [(''dense'', ''d.txt''), (''small'', ''a.txt''), (''small'', ''b.txt'')]"
proof -
  have a: "well_formed_listing example_listing" by code_simp
  have b: "well_formed_listing example_listing_reordered" by code_simp
  have c: "directory_of example_listing = directory_of example_listing_reordered"
    by (simp add: directory_of_def example_listing_def example_listing_reordered_def insert_commute)
  have d: "discover_dataset_files (Some example_listing)
       = Inr [(''dense'', ''d.txt''), (''small'', ''a.txt''), (''small'', ''b.txt'')]"
    by code_simp
  from discovery_sorted_and_deterministic [OF a b c] d
  have "sorted_wrt file_before [(''dense'', ''d.txt''), (''small'', ''a.txt''), (''small'', ''b.txt'')]"
    "discover_dataset_files (Some example_listing_reordered)
       = Inr [(''dense'', ''d.txt''), (''small'', ''a.txt''), (''small'', ''b.txt'')]"
    by simp_all
  with a b c d show ?thesis by (intro conjI)
qed

section \<open>Properties of the execution drivers\<close>

lemma run_one_eq:
  "run_one e exe st cf =
     Inr (st\<lparr>results := results st @ [run_row e exe cf],
             outputs := (outputs st)(outfile_path e exe (fst cf) (snd cf)
                           \<mapsto> fst (run_outcome (process e exe cf))),
             results_csv := Some (write_csv (results st @ [run_row e exe cf]))\<rparr>)"
proof (cases "process e exe cf")
  case (LaunchFails msg)
  then show ?thesis
    by (simp add: run_one_def run_row_def run_outcome_def graph_counts_def try_except_def
                  subprocess_run_def Let_def split: sum.splits prod.splits)
next
  case (Exits d rc out)
  then show ?thesis
    by (simp add: run_one_def run_row_def run_outcome_def graph_counts_def try_except_def
                  subprocess_run_def Let_def split: sum.splits prod.splits)
next
  case (Hangs out)
  then show ?thesis
    by (simp add: run_one_def run_row_def run_outcome_def graph_counts_def try_except_def
                  subprocess_run_def Let_def split: sum.splits prod.splits)
qed

lemma for_each_run_one:
  "\<exists>st'. for_each (run_one e exe) files st = Inr st'
     \<and> results st' = results st @ map (run_row e exe) files
     \<and> results_json st' = results_json st
     \<and> results_csv st' = (if files = [] then results_csv st else Some (write_csv (results st')))"
proof (induction files arbitrary: st)
  case Nil
  show ?case by simp
next
  case (Cons cf files)
  let ?st1 = "st\<lparr>results := results st @ [run_row e exe cf],
             outputs := (outputs st)(outfile_path e exe (fst cf) (snd cf)
                           \<mapsto> fst (run_outcome (process e exe cf))),
             results_csv := Some (write_csv (results st @ [run_row e exe cf]))\<rparr>"
  from Cons.IH [of ?st1] obtain st' where
    "for_each (run_one e exe) files ?st1 = Inr st'"
    "results st' = results ?st1 @ map (run_row e exe) files"
    "results_json st' = results_json ?st1"
    "results_csv st' = (if files = [] then results_csv ?st1 else Some (write_csv (results st')))"
    by blast
  moreover have "for_each (run_one e exe) (cf # files) st = for_each (run_one e exe) files ?st1"
    unfolding for_each.simps by (subst run_one_eq) simp
  ultimately show ?case by auto
qed

lemma for_each_append:
  "for_each body (xs @ ys) s = (case for_each body xs s of Inl ex \<Rightarrow> Inl ex | Inr s' \<Rightarrow> for_each body ys s')"
  by (induction xs arbitrary: s) (auto split: sum.splits)

lemma for_each_map_pair:
  "for_each (run_pair e) (map (Pair exe) files) st = for_each (run_one e exe) files st"
  by (induction files arbitrary: st) (auto simp: run_pair_def split: sum.splits)

lemma nested_loops_flat:
  "for_each (\<lambda>st exe. for_each (run_one e exe) files st) exes st
     = for_each (run_pair e) (List.product exes files) st"
proof (induction exes arbitrary: st)
  case Nil
  show ?case by simp
next
  case (Cons exe exes)
  show ?case
    by (simp add: for_each_append for_each_map_pair Cons.IH split: sum.splits)
qed

lemma for_each_run_pair:
  "\<exists>st'. for_each (run_pair e) pairs st = Inr st'
     \<and> results st' = results st @ map (\<lambda>x. run_row e (fst x) (snd x)) pairs
     \<and> results_json st' = results_json st
     \<and> results_csv st' = (if pairs = [] then results_csv st else Some (write_csv (results st')))"
proof (induction pairs arbitrary: st)
  case Nil
  show ?case by simp
next
  case (Cons x pairs)
  let ?st1 = "st\<lparr>results := results st @ [run_row e (fst x) (snd x)],
             outputs := (outputs st)(outfile_path e (fst x) (fst (snd x)) (snd (snd x))
                           \<mapsto> fst (run_outcome (process e (fst x) (snd x)))),
             results_csv := Some (write_csv (results st @ [run_row e (fst x) (snd x)]))\<rparr>"
  from Cons.IH [of ?st1] obtain st' where
    "for_each (run_pair e) pairs ?st1 = Inr st'"
    "results st' = results ?st1 @ map (\<lambda>x. run_row e (fst x) (snd x)) pairs"
    "results_json st' = results_json ?st1"
    "results_csv st' = (if pairs = [] then results_csv ?st1 else Some (write_csv (results st')))"
    by blast
  moreover have "for_each (run_pair e) (x # pairs) st = for_each (run_pair e) pairs ?st1"
    unfolding for_each.simps run_pair_def [of e st x] by (subst run_one_eq) simp
  ultimately show ?case by auto
qed

lemma run_all_eq:
  assumes "discover_dataset_files (dataset e) = Inr files"
  shows "\<exists>final. run_all e = Inr final
           \<and> results final = map (\<lambda>x. run_row e (fst x) (snd x)) (List.product (compiled_exes e) files)
           \<and> (compiled_exes e \<noteq> [] \<longrightarrow>
                results_csv final = Some (write_csv (results final))
                \<and> results_json final = Some (results final))"
proof (cases "compiled_exes e = []")
  case True
  then show ?thesis by (simp add: run_all_def initial_state_def)
next
  case False
  obtain st where st: "for_each (run_pair e) (List.product (compiled_exes e) files) initial_state = Inr st"
    "results st = results initial_state @ map (\<lambda>x. run_row e (fst x) (snd x)) (List.product (compiled_exes e) files)"
    using for_each_run_pair [of e "List.product (compiled_exes e) files" initial_state] by blast
  with False assms show ?thesis
    by (simp add: run_all_def nested_loops_flat initial_state_def)
qed

lemma rel_path_inj:
  assumes "CHR ''/'' \<notin> set c1" "CHR ''/'' \<notin> set c2" "c1 @ ''/'' @ f1 = c2 @ ''/'' @ f2"
  shows "c1 = c2 \<and> f1 = f2"
proof -
  have "takeWhile (\<lambda>x. x \<noteq> CHR ''/'') (c1 @ ''/'' @ f1) = c1"
    using assms(1) by (auto simp: takeWhile_tail)
  moreover have "takeWhile (\<lambda>x. x \<noteq> CHR ''/'') (c2 @ ''/'' @ f2) = c2"
    using assms(2) by (auto simp: takeWhile_tail)
  ultimately have "c1 = c2" using assms(3) by simp
  with assms(3) show ?thesis by simp
qed

lemma compiled_exes_distinct: "distinct (compiled_exes e)"
  by (simp add: compiled_exes_def EXEC_NAMES_def)

lemma record_key_run_row: "record_key (run_row e exe cf) = (exe, fst cf @ ''/'' @ snd cf)"
  by (simp add: record_key_def run_row_def)

lemma keys_distinct:
  fixes exes :: "string list"
  assumes "distinct exes" "distinct files" "\<And>cf. cf \<in> set files \<Longrightarrow> CHR ''/'' \<notin> set (fst cf)"
  shows "distinct (map (\<lambda>x. (fst x, fst (snd x) @ ''/'' @ snd (snd x))) (List.product exes files))"
proof -
  have "distinct (List.product exes files)"
    using assms(1,2) by (rule distinct_product)
  moreover have "inj_on (\<lambda>x. (fst x, fst (snd x) @ ''/'' @ snd (snd x))) (set (List.product exes files))"
  proof (rule inj_onI)
    fix x y :: "string \<times> string \<times> string"
    assume x: "x \<in> set (List.product exes files)" and y: "y \<in> set (List.product exes files)"
      and eq: "(fst x, fst (snd x) @ ''/'' @ snd (snd x)) = (fst y, fst (snd y) @ ''/'' @ snd (snd y))"
    from x y have "CHR ''/'' \<notin> set (fst (snd x))" "CHR ''/'' \<notin> set (fst (snd y))"
      using assms(3) by auto
    with eq have "fst (snd x) = fst (snd y) \<and> snd (snd x) = snd (snd y)"
      using rel_path_inj [of "fst (snd x)" "fst (snd y)" "snd (snd x)" "snd (snd y)"] by simp
    with eq show "x = y" by (simp add: prod_eq_iff)
  qed
  ultimately show ?thesis by (simp add: distinct_map)
qed

lemma p1_one_bound:
  assumes "p1_counts (counts st) (graph_file e cf) = Some nm"
  shows "p1_one e st cf =
     Inr (st\<lparr>results := results st @ [p1_row e nm cf],
             outputs := (outputs st)(outfile_path e ''p1'' (fst cf) (snd cf)
                           \<mapsto> fst (run_outcome (process e ''p1'' cf))),
             counts := Some nm\<rparr>)"
proof (cases "process e ''p1'' cf")
  case (LaunchFails msg)
  with assms show ?thesis
    by (cases nm) (simp add: p1_one_def p1_row_def run_outcome_def try_except_def
                  subprocess_run_def Let_def)
next
  case (Exits d rc out)
  with assms show ?thesis
    by (cases nm) (simp add: p1_one_def p1_row_def run_outcome_def try_except_def
                  subprocess_run_def Let_def)
next
  case (Hangs out)
  with assms show ?thesis
    by (cases nm) (simp add: p1_one_def p1_row_def run_outcome_def try_except_def
                  subprocess_run_def Let_def)
qed

lemma p1_one_unbound:
  assumes "p1_counts (counts st) (graph_file e cf) = None"
  shows "p1_one e st cf = Inl (unbound_local_error ''n'')"
proof (cases "process e ''p1'' cf")
  case (LaunchFails msg)
  with assms show ?thesis
    by (simp add: p1_one_def try_except_def subprocess_run_def Let_def unbound_local_error_def)
next
  case (Exits d rc out)
  with assms show ?thesis
    by (simp add: p1_one_def try_except_def subprocess_run_def Let_def unbound_local_error_def)
next
  case (Hangs out)
  with assms show ?thesis
    by (simp add: p1_one_def try_except_def subprocess_run_def Let_def unbound_local_error_def)
qed

lemma example_files:
  "discover_dataset_files (dataset example_env)
     = Inr [(''dense'', ''d.txt''), (''small'', ''a.txt''), (''small'', ''b.txt'')]"
  by code_simp

lemma example_compiled: "compiled_exes example_env = [''p1'', ''p2'']"
  by code_simp

text \<open>
  Claim C1. When the process launched for an algorithm on a file does not exit within
  600 seconds, the run appends one row whose exit code is \<^verbatim>\<open>timeout\<close> and whose time is
  \<^verbatim>\<open>None\<close>, and the output file of that run holds the text \<^verbatim>\<open>TIMEOUT\<close> and a newline,
  whatever the process had written.
\<close>

theorem timeout_record:
  assumes "overruns 600 (process e exe cf)"
  shows "\<exists>st' r. run_one e exe st cf = Inr st'
           \<and> results st' = results st @ [r]
           \<and> r_algorithm r = exe \<and> r_file r = fst cf @ ''/'' @ snd cf
           \<and> r_exitcode r = PStr ''timeout''
           \<and> r_time r = PNone
           \<and> outputs st' (r_output r) = Some (''TIMEOUT'' @ [CHR 0x0A])"
proof -
  from assms have "run_outcome (process e exe cf) = (timeout_text, PNone, PStr ''timeout'')"
    by (auto simp: overruns_def run_outcome_def split: proc_behaviour.splits)
  then show ?thesis
    by (simp add: run_one_eq run_row_def timeout_text_def)
qed

theorem timeout_record_witness:
  "overruns 600 (process example_env ''p2'' (''dense'', ''d.txt''))
   \<and> (\<exists>st' r. run_one example_env ''p2'' initial_state (''dense'', ''d.txt'') = Inr st'
          \<and> results st' = results initial_state @ [r]
          \<and> r_algorithm r = ''p2'' \<and> r_file r = ''dense/d.txt''
          \<and> r_exitcode r = PStr ''timeout'' \<and> r_time r = PNone
          \<and> outputs st' (r_output r) = Some (''TIMEOUT'' @ [CHR 0x0A]))"
proof -
  have h: "overruns 600 (process example_env ''p2'' (''dense'', ''d.txt''))"
    by (simp add: example_env_def overruns_def)
  from timeout_record [OF h, of initial_state] h show ?thesis by simp
qed

text \<open>
  Claim C2, as amended. One execution of \<^verbatim>\<open>run_all\<close> never raises: a failure to launch
  the process, or to talk to it, that is not a timeout appends a row whose exit code is the
  string \<^verbatim>\<open>error\<close> and whose time is \<^verbatim>\<open>None\<close>, and writes \<^verbatim>\<open>ERROR: \<close>, the message and a
  newline to the output file; the loop over the files goes on to the end. The same holds for
  one execution of \<^verbatim>\<open>run_p1_only\<close> whenever its counts are bound. The row does not hold
  the message: two failures with different messages leave the same row.
\<close>

theorem failures_become_error_records:
  "(\<exists>st'. run_one e exe st cf = Inr st'
       \<and> (\<forall>msg. process e exe cf = LaunchFails msg \<longrightarrow>
            (\<exists>r. results st' = results st @ [r] \<and> r_exitcode r = PStr ''error'' \<and> r_time r = PNone
                 \<and> outputs st' (r_output r) = Some (''ERROR: '' @ msg @ [CHR 0x0A]))))
   \<and> (\<exists>st'. for_each (run_one e exe) files st = Inr st'
          \<and> length (results st') = length (results st) + length files)
   \<and> (p1_counts (counts pst) (graph_file e cf) \<noteq> None \<longrightarrow>
        (\<exists>pst'. p1_one e pst cf = Inr pst'
           \<and> (\<forall>msg. process e ''p1'' cf = LaunchFails msg \<longrightarrow>
                (\<exists>r. results pst' = results pst @ [r] \<and> r_exitcode r = PStr ''error'' \<and> r_time r = PNone
                     \<and> outputs pst' (r_output r) = Some (''ERROR: '' @ msg @ [CHR 0x0A])))))"
proof (intro conjI impI)
  show "\<exists>st'. run_one e exe st cf = Inr st'
       \<and> (\<forall>msg. process e exe cf = LaunchFails msg \<longrightarrow>
            (\<exists>r. results st' = results st @ [r] \<and> r_exitcode r = PStr ''error'' \<and> r_time r = PNone
                 \<and> outputs st' (r_output r) = Some (''ERROR: '' @ msg @ [CHR 0x0A])))"
    by (simp add: run_one_eq run_row_def run_outcome_def error_text_def)
next
  show "\<exists>st'. for_each (run_one e exe) files st = Inr st'
          \<and> length (results st') = length (results st) + length files"
    using for_each_run_one [of e exe files st] by auto
next
  assume "p1_counts (counts pst) (graph_file e cf) \<noteq> None"
  then obtain nm where "p1_counts (counts pst) (graph_file e cf) = Some nm" by auto
  then show "\<exists>pst'. p1_one e pst cf = Inr pst'
           \<and> (\<forall>msg. process e ''p1'' cf = LaunchFails msg \<longrightarrow>
                (\<exists>r. results pst' = results pst @ [r] \<and> r_exitcode r = PStr ''error'' \<and> r_time r = PNone
                     \<and> outputs pst' (r_output r) = Some (''ERROR: '' @ msg @ [CHR 0x0A])))"
    by (simp add: p1_one_bound p1_row_def run_outcome_def error_text_def)
qed

theorem failures_become_error_records_witness:
  "process example_env ''p1'' (''small'', ''b.txt'') = LaunchFails ''Permission denied''
   \<and> p1_counts (counts p1_initial_state) (graph_file example_env (''small'', ''b.txt'')) \<noteq> None
   \<and> (\<exists>st' r. run_one example_env ''p1'' initial_state (''small'', ''b.txt'') = Inr st'
          \<and> results st' = results initial_state @ [r] \<and> r_exitcode r = PStr ''error'' \<and> r_time r = PNone
          \<and> outputs st' (r_output r) = Some (''ERROR: Permission denied'' @ [CHR 0x0A]))
   \<and> (\<exists>pst' r. p1_one example_env p1_initial_state (''small'', ''b.txt'') = Inr pst'
          \<and> results pst' = results p1_initial_state @ [r] \<and> r_exitcode r = PStr ''error'' \<and> r_time r = PNone
          \<and> outputs pst' (r_output r) = Some (''ERROR: Permission denied'' @ [CHR 0x0A]))"
proof -
  have a: "process example_env ''p1'' (''small'', ''b.txt'') = LaunchFails ''Permission denied''"
    by (simp add: example_env_def)
  have b: "p1_counts (counts p1_initial_state) (graph_file example_env (''small'', ''b.txt'')) \<noteq> None"
    by (simp add: example_env_def p1_counts_def)
  from failures_become_error_records
         [of example_env "''p1''" initial_state "(''small'', ''b.txt'')" "[]" p1_initial_state] a b
  show ?thesis by auto
qed

theorem error_record_counterexample:
  "map_sum id results
      (run_one (example_env\<lparr>process := (\<lambda>exe cf. LaunchFails ''No such file or directory'')\<rparr>)
         ''p1'' initial_state (''small'', ''a.txt''))
   = Inr [\<lparr>r_algorithm = ''p1'', r_category = ''small'', r_file = ''small/a.txt'',
           r_n = PInt 3, r_m = PInt 2, r_time = PNone, r_exitcode = PStr ''error'',
           r_output = ''/bench/outputs/p1/small/a.txt''\<rparr>]
   \<and> map_sum id results
      (run_one (example_env\<lparr>process := (\<lambda>exe cf. LaunchFails ''Permission denied'')\<rparr>)
         ''p1'' initial_state (''small'', ''a.txt''))
   = Inr [\<lparr>r_algorithm = ''p1'', r_category = ''small'', r_file = ''small/a.txt'',
           r_n = PInt 3, r_m = PInt 2, r_time = PNone, r_exitcode = PStr ''error'',
           r_output = ''/bench/outputs/p1/small/a.txt''\<rparr>]"
  by code_simp

text \<open>
  With the counts unbound, which is the case when no file so far had a line to take them
  from, \<^verbatim>\<open>run_p1_only\<close> raises out of its loop.
\<close>

lemma p1_missing_header_raises:
  "map_sum id results (run_p1_only (example_env\<lparr>graph_file := (\<lambda>cf. Readable [])\<rparr>))
     = Inl (unbound_local_error ''n'')"
  by code_simp



text \<open>
  Claim C7. A run over a well-formed dataset directory completes, and appends one row
  for every pair of a built algorithm and a discovered file: as many rows as the product
  of the two numbers, with keys (algorithm, file) that all differ.
\<close>

theorem batch_coverage:
  assumes "dataset e = Some listing" "well_formed_listing listing"
  shows "\<exists>final files. discover_dataset_files (dataset e) = Inr files
           \<and> run_all e = Inr final
           \<and> length (results final) = length files * length (compiled_exes e)
           \<and> map record_key (results final)
               = map (\<lambda>x. (fst x, fst (snd x) @ ''/'' @ snd (snd x))) (List.product (compiled_exes e) files)
           \<and> distinct (map record_key (results final))"
proof -
  have d: "discover_dataset_files (dataset e) = Inr (discovered listing)"
    using assms(1) by (simp add: discover_dataset_files_def discovered_def)
  from run_all_eq [OF d] obtain final where f: "run_all e = Inr final"
    "results final = map (\<lambda>x. run_row e (fst x) (snd x)) (List.product (compiled_exes e) (discovered listing))"
    by blast
  have k: "map record_key (results final)
      = map (\<lambda>x. (fst x, fst (snd x) @ ''/'' @ snd (snd x))) (List.product (compiled_exes e) (discovered listing))"
    by (simp add: f(2) record_key_run_row)
  have "distinct (map record_key (results final))"
    unfolding k
    using compiled_exes_distinct discovered_distinct [OF assms(2)] discovered_categories [OF assms(2)]
    by (rule keys_distinct)
  moreover have "length (results final) = length (discovered listing) * length (compiled_exes e)"
    by (simp add: f(2) length_product)
  ultimately show ?thesis using d f(1) k by blast
qed

theorem batch_coverage_witness:
  "dataset example_env = Some example_listing
   \<and> well_formed_listing example_listing
   \<and> (\<exists>final. run_all example_env = Inr final
          \<and> length (results final) = 3 * 2
          \<and> map record_key (results final)
               = [(''p1'', ''dense/d.txt''), (''p1'', ''small/a.txt''), (''p1'', ''small/b.txt''),
                  (''p2'', ''dense/d.txt''), (''p2'', ''small/a.txt''), (''p2'', ''small/b.txt'')]
          \<and> distinct (map record_key (results final)))"
proof -
  have a: "dataset example_env = Some example_listing" by (simp add: example_env_def)
  have b: "well_formed_listing example_listing" by code_simp
  from batch_coverage [OF a b] obtain final files where
    f: "discover_dataset_files (dataset example_env) = Inr files"
       "run_all example_env = Inr final"
       "length (results final) = length files * length (compiled_exes example_env)"
       "map record_key (results final)
          = map (\<lambda>x. (fst x, fst (snd x) @ ''/'' @ snd (snd x))) (List.product (compiled_exes example_env) files)"
       "distinct (map record_key (results final))"
    by blast
  from f(1) have files: "files = [(''dense'', ''d.txt''), (''small'', ''a.txt''), (''small'', ''b.txt'')]"
    by (simp add: example_files)
  have len: "length (results final) = 3 * 2"
    unfolding f(3) files example_compiled by simp
  have keys: "map record_key (results final)
               = [(''p1'', ''dense/d.txt''), (''p1'', ''small/a.txt''), (''p1'', ''small/b.txt''),
                  (''p2'', ''dense/d.txt''), (''p2'', ''small/a.txt''), (''p2'', ''small/b.txt'')]"
    unfolding f(4) files example_compiled by simp
  show ?thesis
  proof (intro conjI exI [of _ final])
    show "dataset example_env = Some example_listing" by (rule a)
    show "well_formed_listing example_listing" by (rule b)
    show "run_all example_env = Inr final" by (rule f(2))
    show "length (results final) = 3 * 2" by (rule len)
    show "map record_key (results final)
               = [(''p1'', ''dense/d.txt''), (''p1'', ''small/a.txt''), (''p1'', ''small/b.txt''),
                  (''p2'', ''dense/d.txt''), (''p2'', ''small/a.txt''), (''p2'', ''small/b.txt'')]"
      by (rule keys)
    show "distinct (map record_key (results final))" by (rule f(5))
  qed
qed

section \<open>Properties of the recorded counts\<close>

lemma header_fields_nth:
  "header_fields l =
     (if 2 \<le> length (split (strip l))
      then (case (py_int (split (strip l) ! 0), py_int (split (strip l) ! 1)) of
              (Some n, Some m) \<Rightarrow> Some (n, m) | _ \<Rightarrow> None)
      else None)"
proof (cases "split (strip l)")
  case Nil
  then show ?thesis by (simp add: header_fields_def)
next
  case (Cons a as)
  then show ?thesis by (cases as) (simp_all add: header_fields_def)
qed

lemma read_header_and_edges_lines:
  "read_header_and_edges text =
     (case file_lines [] text of
        [] \<Rightarrow> (0, 0, [])
      | l # ls \<Rightarrow>
          (case header_fields l of
             Some (n, m) \<Rightarrow> (n, m, gen_from_file ls)
           | None \<Rightarrow>
               if gen_from_file (l # ls) \<noteq> []
               then (Max (set (map (\<lambda>(u, v). max u v) (gen_from_file (l # ls)))) + 1,
                     int (length (gen_from_file (l # ls))), gen_from_file (l # ls))
               else (0, 0, [])))"
proof (cases "file_lines [] text")
  case Nil
  then show ?thesis
    by (simp add: read_header_and_edges_def strip_def lstrip_def rstrip_def split_def)
next
  case (Cons l ls)
  show ?thesis
  proof (cases "header_fields l")
    case None
    with Cons show ?thesis
      unfolding read_header_and_edges_def Let_def
      by (simp del: gen_from_file.simps add: header_fields_nth split: if_splits option.splits)
  next
    case (Some nm)
    with Cons show ?thesis
      unfolding read_header_and_edges_def Let_def
      by (cases nm) (simp del: gen_from_file.simps add: header_fields_nth split: if_splits option.splits)
  qed
qed

lemma graph_counts_header:
  assumes "file_lines [] text = l # ls" "header_fields l = Some (n, m)"
  shows "graph_counts (Readable text) = (PInt n, PInt m)"
  using assms
  by (simp add: graph_counts_def build_graph_from_file_def read_header_and_edges_lines)

lemma graph_counts_inferred:
  assumes "file_lines [] text = l # ls" "header_fields l = None"
  shows "graph_counts (Readable text) = inferred_counts (gen_from_file (l # ls))"
  using assms
  by (simp del: gen_from_file.simps
           add: graph_counts_def build_graph_from_file_def read_header_and_edges_lines inferred_counts_def)

lemma graph_counts_empty:
  assumes "file_lines [] text = []"
  shows "graph_counts (Readable text) = (PInt 0, PInt 0)"
  using assms
  by (simp add: graph_counts_def build_graph_from_file_def read_header_and_edges_lines)

lemma p1_header_loop_find:
  assumes "find p1_candidate ls = Some l"
  shows "p1_header_loop ls = Some (case header_fields l of Some nm \<Rightarrow> Inr nm | None \<Rightarrow> Inl value_error)"
  using assms
proof (induction ls)
  case Nil
  then show ?case by simp
next
  case (Cons x ls)
  show ?case
  proof (cases "p1_candidate x")
    case True
    with Cons.prems have "x = l" by simp
    with True show ?thesis
      by (simp add: p1_candidate_def is_comment_def header_fields_nth Let_def
               split: option.splits)
  next
    case False
    with Cons.prems have "find p1_candidate ls = Some l" by simp
    from Cons.IH [OF this] False show ?thesis
      by (auto simp: p1_candidate_def is_comment_def Let_def)
  qed
qed

lemma p1_counts_find:
  assumes "find p1_candidate (file_lines [] text) = Some l"
  shows "p1_counts old (Readable text)
           = Some (case header_fields l of Some (n, m) \<Rightarrow> (PInt n, PInt m) | None \<Rightarrow> (PNone, PNone))"
  by (simp add: p1_counts_def p1_header_loop_find [OF assms] split: option.splits)

text \<open>
  Claim C5, as amended. \<^verbatim>\<open>run_all\<close> records the two integers the first line of the file
  starts with; when the first line is not a comment and does not start with two integers,
  or the file is empty, it records the counts inferred from the edges of the file (one more
  than the largest endpoint, and their number; zero and zero without edges); it records
  \<^verbatim>\<open>None\<close> twice only when the file cannot be read; and it appends the row in each case.
  \<^verbatim>\<open>run_p1_only\<close> takes the counts from the first line that is neither blank nor a
  comment and has two fields: the two integers, or \<^verbatim>\<open>None\<close> twice when they are not
  integers or the file cannot be read.
\<close>

theorem counts_from_header:
  "(file_lines [] text = l # ls \<and> header_fields l = Some (n, m) \<longrightarrow>
      graph_counts (Readable text) = (PInt n, PInt m))
   \<and> (file_lines [] text = l # ls \<and> header_fields l = None \<and> \<not> is_comment l \<longrightarrow>
      graph_counts (Readable text) = inferred_counts (gen_from_file (l # ls)))
   \<and> (file_lines [] text = [] \<longrightarrow> graph_counts (Readable text) = (PInt 0, PInt 0))
   \<and> graph_counts Absent = (PNone, PNone)
   \<and> graph_counts (Unreadable ex) = (PNone, PNone)
   \<and> (\<exists>st' r. run_one e exe st cf = Inr st' \<and> results st' = results st @ [r]
          \<and> (r_n r, r_m r) = graph_counts (graph_file e cf))
   \<and> (find p1_candidate (file_lines [] text) = Some l \<longrightarrow>
        p1_counts old (Readable text)
          = Some (case header_fields l of Some (n, m) \<Rightarrow> (PInt n, PInt m) | None \<Rightarrow> (PNone, PNone)))
   \<and> p1_counts old Absent = Some (PNone, PNone)
   \<and> p1_counts old (Unreadable ex) = Some (PNone, PNone)
   \<and> (p1_counts (counts pst) (graph_file e cf) = Some nm \<longrightarrow>
        (\<exists>pst' r. p1_one e pst cf = Inr pst' \<and> results pst' = results pst @ [r]
           \<and> (r_n r, r_m r) = nm))"
proof (intro conjI impI)
  assume "file_lines [] text = l # ls \<and> header_fields l = Some (n, m)"
  then show "graph_counts (Readable text) = (PInt n, PInt m)"
    using graph_counts_header by blast
next
  assume "file_lines [] text = l # ls \<and> header_fields l = None \<and> \<not> is_comment l"
  then show "graph_counts (Readable text) = inferred_counts (gen_from_file (l # ls))"
    using graph_counts_inferred by blast
next
  assume "file_lines [] text = []"
  then show "graph_counts (Readable text) = (PInt 0, PInt 0)" by (rule graph_counts_empty)
next
  show "graph_counts Absent = (PNone, PNone)"
    by (simp add: graph_counts_def build_graph_from_file_def)
next
  show "graph_counts (Unreadable ex) = (PNone, PNone)"
    by (simp add: graph_counts_def build_graph_from_file_def)
next
  show "\<exists>st' r. run_one e exe st cf = Inr st' \<and> results st' = results st @ [r]
          \<and> (r_n r, r_m r) = graph_counts (graph_file e cf)"
    by (simp add: run_one_eq run_row_def)
next
  assume "find p1_candidate (file_lines [] text) = Some l"
  then show "p1_counts old (Readable text)
          = Some (case header_fields l of Some (n, m) \<Rightarrow> (PInt n, PInt m) | None \<Rightarrow> (PNone, PNone))"
    by (rule p1_counts_find)
next
  show "p1_counts old Absent = Some (PNone, PNone)" by (simp add: p1_counts_def)
next
  show "p1_counts old (Unreadable ex) = Some (PNone, PNone)" by (simp add: p1_counts_def)
next
  assume "p1_counts (counts pst) (graph_file e cf) = Some nm"
  then show "\<exists>pst' r. p1_one e pst cf = Inr pst' \<and> results pst' = results pst @ [r]
           \<and> (r_n r, r_m r) = nm"
    by (simp add: p1_one_bound p1_row_def)
qed

theorem counts_from_header_witness:
  "file_lines [] path_text = [''3 2'' @ [CHR 0x0A], ''0 1'' @ [CHR 0x0A], ''1 2'' @ [CHR 0x0A]]
   \<and> header_fields (''3 2'' @ [CHR 0x0A]) = Some (3, 2)
   \<and> graph_counts (Readable path_text) = (PInt 3, PInt 2)
   \<and> file_lines [] headerless_text = [''graph'' @ [CHR 0x0A], ''0 1'' @ [CHR 0x0A], ''1 2'' @ [CHR 0x0A]]
   \<and> header_fields (''graph'' @ [CHR 0x0A]) = None
   \<and> \<not> is_comment (''graph'' @ [CHR 0x0A])
   \<and> graph_counts (Readable headerless_text) = (PInt 3, PInt 2)
   \<and> file_lines [] [] = []
   \<and> graph_counts (Readable []) = (PInt 0, PInt 0)
   \<and> find p1_candidate (file_lines [] k3_text) = Some (''3 3'' @ [CHR 0x0A])
   \<and> p1_counts None (Readable k3_text) = Some (PInt 3, PInt 3)
   \<and> p1_counts (counts p1_initial_state) (graph_file example_env (''small'', ''a.txt'')) = Some (PInt 3, PInt 2)
   \<and> (\<exists>pst' r. p1_one example_env p1_initial_state (''small'', ''a.txt'') = Inr pst'
          \<and> results pst' = results p1_initial_state @ [r] \<and> (r_n r, r_m r) = (PInt 3, PInt 2))"
proof -
  have a1: "file_lines [] path_text = [''3 2'' @ [CHR 0x0A], ''0 1'' @ [CHR 0x0A], ''1 2'' @ [CHR 0x0A]]"
    by code_simp
  have a2: "header_fields (''3 2'' @ [CHR 0x0A]) = Some (3, 2)" by code_simp
  have b1: "file_lines [] headerless_text = [''graph'' @ [CHR 0x0A], ''0 1'' @ [CHR 0x0A], ''1 2'' @ [CHR 0x0A]]"
    by code_simp
  have b2: "header_fields (''graph'' @ [CHR 0x0A]) = None" by code_simp
  have b3: "\<not> is_comment (''graph'' @ [CHR 0x0A])" by code_simp
  have b4: "inferred_counts (gen_from_file [''graph'' @ [CHR 0x0A], ''0 1'' @ [CHR 0x0A], ''1 2'' @ [CHR 0x0A]])
              = (PInt 3, PInt 2)" by code_simp
  have c1: "file_lines [] [] = []" by simp
  have d1: "find p1_candidate (file_lines [] k3_text) = Some (''3 3'' @ [CHR 0x0A])" by code_simp
  have d2: "header_fields (''3 3'' @ [CHR 0x0A]) = Some (3, 3)" by code_simp
  have e1: "p1_counts (counts p1_initial_state) (graph_file example_env (''small'', ''a.txt'')) = Some (PInt 3, PInt 2)"
    by code_simp
  note t1 = counts_from_header [of path_text "''3 2'' @ [CHR 0x0A]" "[''0 1'' @ [CHR 0x0A], ''1 2'' @ [CHR 0x0A]]" 3 2]
  note t2 = counts_from_header [of headerless_text "''graph'' @ [CHR 0x0A]" "[''0 1'' @ [CHR 0x0A], ''1 2'' @ [CHR 0x0A]]"]
  note t3 = counts_from_header [of "[]"]
  note t4 = counts_from_header [of k3_text "''3 3'' @ [CHR 0x0A]" _ _ _ _ _ _ _ _ None]
  note t5 = counts_from_header [of _ _ _ _ _ _ example_env _ _ "(''small'', ''a.txt'')" _ p1_initial_state "(PInt 3, PInt 2)"]
  from t1 a1 a2 have r1: "graph_counts (Readable path_text) = (PInt 3, PInt 2)" by blast
  from t2 b1 b2 b3 have "graph_counts (Readable headerless_text)
      = inferred_counts (gen_from_file [''graph'' @ [CHR 0x0A], ''0 1'' @ [CHR 0x0A], ''1 2'' @ [CHR 0x0A]])"
    by blast
  with b4 have r2: "graph_counts (Readable headerless_text) = (PInt 3, PInt 2)" by simp
  from t3 c1 have r3: "graph_counts (Readable []) = (PInt 0, PInt 0)" by blast
  from t4 d1 have "p1_counts None (Readable k3_text)
      = Some (case header_fields (''3 3'' @ [CHR 0x0A]) of Some (n, m) \<Rightarrow> (PInt n, PInt m) | None \<Rightarrow> (PNone, PNone))"
    by blast
  with d2 have r4: "p1_counts None (Readable k3_text) = Some (PInt 3, PInt 3)" by simp
  from t5 e1 have r5: "\<exists>pst' r. p1_one example_env p1_initial_state (''small'', ''a.txt'') = Inr pst'
          \<and> results pst' = results p1_initial_state @ [r] \<and> (r_n r, r_m r) = (PInt 3, PInt 2)"
    by blast
  from a1 a2 r1 b1 b2 b3 r2 c1 r3 d1 r4 e1 r5 show ?thesis by (intro conjI)
qed

theorem counts_from_header_counterexample:
  "build_graph_from_file (Readable headerless_text) = Inr (3, 2, [(0, 1), (1, 2)])
   \<and> build_graph_from_file (Readable []) = Inr (0, 0, [])"
  by code_simp

text \<open>
  A header behind a description line, as the dataset generator writes it, is not found by
  \<^verbatim>\<open>run_all\<close>: the header line is read as an edge.
\<close>

lemma run_all_counts_header_behind_comment:
  "build_graph_from_file (Readable k3_text) = Inr (4, 4, [(3, 3), (0, 1), (1, 2), (0, 2)])"
  by code_simp

section \<open>Properties of the profiler report parser\<close>

lemma int_body_ok_digits: "s \<noteq> [] \<Longrightarrow> list_all is_digit s \<Longrightarrow> int_body_ok s"
proof (induction s rule: int_body_ok.induct)
  case 1
  then show ?case by simp
next
  case (2 c)
  then show ?case by simp
next
  case (3 c d cs)
  then have "d \<noteq> CHR ''_''" by (auto simp: is_digit_def)
  with 3 show ?case by simp
qed

lemma digit_not_space: "is_digit c \<Longrightarrow> \<not> isspace c"
  by (auto simp: is_digit_def isspace_def)

lemma dropWhile_none: "xs = [] \<or> \<not> P (hd xs) \<Longrightarrow> dropWhile P xs = xs"
  by (cases xs) auto

lemma strip_digits: "isdigit s \<Longrightarrow> strip s = s"
proof -
  assume d: "isdigit s"
  then have ne: "s \<noteq> []" and all: "list_all is_digit s" by (simp_all add: isdigit_def)
  from ne have "last s \<in> set s" by simp
  with all have "is_digit (last s)" by (simp add: list_all_iff)
  then have "\<not> isspace (hd (rev s))" using ne by (simp add: hd_rev digit_not_space)
  then have "dropWhile isspace (rev s) = rev s" by (simp add: dropWhile_none)
  then have r: "rstrip s = s" by (simp add: rstrip_def)
  from ne all have "is_digit (hd s)" by (cases s) simp_all
  then have "dropWhile isspace s = s" by (simp add: dropWhile_none digit_not_space)
  with r show ?thesis by (simp add: strip_def lstrip_def)
qed

lemma py_int_digits: "isdigit s \<Longrightarrow> py_int s = Some (dec_value s)"
proof -
  assume d: "isdigit s"
  then have ne: "s \<noteq> []" and all: "list_all is_digit s" by (simp_all add: isdigit_def)
  from ne all have "is_digit (hd s)" by (cases s) simp_all
  then have sign: "hd s \<noteq> CHR ''-''" "hd s \<noteq> CHR ''+''" by (auto simp: is_digit_def)
  from ne all have ok: "int_body_ok s" by (rule int_body_ok_digits)
  from all have flt: "filter (\<lambda>c. c \<noteq> CHR ''_'') s = s"
    by (auto simp: list_all_iff is_digit_def intro!: filter_True)
  show ?thesis
    unfolding py_int_def Let_def strip_digits [OF d]
    using ne sign ok flt by simp
qed

lemma followed_by_Cons:
  "followed_by (t # ts) = (t, case ts of [] \<Rightarrow> None | nxt # _ \<Rightarrow> Some nxt) # followed_by ts"
  by (cases ts) (simp_all add: followed_by_def)

lemma numbers_loop_eq:
  "numbers_loop ts =
     Inr (map (\<lambda>p. dec_value (replace_char CHR '','' [] (fst p)))
              (filter counts_as_number (followed_by ts)))"
proof (induction ts)
  case Nil
  show ?case by (simp add: followed_by_def)
next
  case (Cons t ts)
  let ?p = "(t, case ts of [] \<Rightarrow> None | nxt # _ \<Rightarrow> Some nxt)"
  have cond: "(isdigit (replace_char CHR '','' [] t)
                \<and> (case ts of [] \<Rightarrow> False | nxt # _ \<Rightarrow> startswith nxt ''('' \<and> endswith nxt ''%)''))
              = counts_as_number ?p"
    by (cases ts) (simp_all add: counts_as_number_def)
  show ?case
  proof (cases "counts_as_number ?p")
    case True
    then have d: "isdigit (replace_char CHR '','' [] t)" by (simp add: counts_as_number_def)
    have "numbers_loop (t # ts) =
            (case numbers_loop ts of Inl ex \<Rightarrow> Inl ex
             | Inr numbers \<Rightarrow> Inr (dec_value (replace_char CHR '','' [] t) # numbers))"
      using True by (simp only: numbers_loop.simps Let_def cond if_True py_int_digits [OF d] option.case)
    with True show ?thesis
      by (simp only: Cons.IH followed_by_Cons filter.simps if_True list.map sum.case fst_conv)
  next
    case False
    then have "numbers_loop (t # ts) = numbers_loop ts"
      by (simp only: numbers_loop.simps Let_def cond if_False)
    with False show ?thesis
      by (simp only: Cons.IH followed_by_Cons filter.simps if_False)
  qed
qed

lemma numbers_loop_split: "numbers_loop (split line) = Inr (totals_numbers line)"
  by (simp add: numbers_loop_eq totals_numbers_def)

lemma totals_loop_find:
  "totals_loop lines =
     Inr (case find (\<lambda>l. is_totals_line l \<and> 11 \<le> length (totals_numbers l)) lines of
            None \<Rightarrow> None
          | Some l \<Rightarrow> Some (metrics_of (totals_numbers l)))"
  by (induction lines) (simp_all add: numbers_loop_split is_totals_line_def metrics_of_def)

lemma first_totals_loop_find:
  "first_totals_loop algo lines =
     Inr (case find is_totals_line lines of
            None \<Rightarrow> None
          | Some l \<Rightarrow>
              if 11 \<le> length (totals_numbers l)
              then Some \<lparr>c_algorithm = algo, c_instructions = totals_numbers l ! 0,
                         c_l1_i_misses = totals_numbers l ! 1, c_l1_d_misses = totals_numbers l ! 4,
                         c_l1_total_misses = totals_numbers l ! 1 + totals_numbers l ! 4,
                         c_branches = totals_numbers l ! 9, c_branch_mispredicts = totals_numbers l ! 10\<rparr>
              else None)"
  by (induction lines) (simp_all add: numbers_loop_split is_totals_line_def)

lemma find_holds: "find P xs = Some x \<Longrightarrow> P x"
  by (induction xs) (auto split: if_splits)

text \<open>
  Claim C3, as amended. \<^verbatim>\<open>parse_cachegrind_output\<close> returns the metrics of the first line
  that contains \<^verbatim>\<open>PROGRAM TOTALS\<close> and has at least eleven integers that count, its eleven
  fields being the first eleven of them in the declared order; an integer counts when the
  token after it starts with \<^verbatim>\<open>(\<close> and ends with \<^verbatim>\<open>%)\<close>, whatever stands in between.
  It returns \<^verbatim>\<open>None\<close> when no line is such, and when \<^verbatim>\<open>cg_annotate\<close> fails.
  \<^verbatim>\<open>parse_cachegrind_for_test\<close> looks at the first totals line only.
\<close>

theorem totals_line_parsed:
  "parse_cachegrind_output (Inr output) =
     (case find (\<lambda>l. is_totals_line l \<and> 11 \<le> length (totals_numbers l)) (split_on (CHR 0x0A) [] output) of
        None \<Rightarrow> None
      | Some l \<Rightarrow> Some (metrics_of (take 11 (totals_numbers l))))
   \<and> parse_cachegrind_output (Inl ex) = None
   \<and> cache_row_for_test algo (Inr output) =
     (case find is_totals_line (split_on (CHR 0x0A) [] output) of
        None \<Rightarrow> None
      | Some l \<Rightarrow>
          if 11 \<le> length (totals_numbers l)
          then Some \<lparr>c_algorithm = algo, c_instructions = totals_numbers l ! 0,
                     c_l1_i_misses = totals_numbers l ! 1, c_l1_d_misses = totals_numbers l ! 4,
                     c_l1_total_misses = totals_numbers l ! 1 + totals_numbers l ! 4,
                     c_branches = totals_numbers l ! 9, c_branch_mispredicts = totals_numbers l ! 10\<rparr>
          else None)
   \<and> cache_row_for_test algo (Inl ex) = None"
proof (intro conjI)
  let ?lines = "split_on (CHR 0x0A) [] output"
  let ?P = "\<lambda>l. is_totals_line l \<and> 11 \<le> length (totals_numbers l)"
  show "parse_cachegrind_output (Inr output) =
     (case find ?P ?lines of
        None \<Rightarrow> None
      | Some l \<Rightarrow> Some (metrics_of (take 11 (totals_numbers l))))"
  proof (cases "find ?P ?lines")
    case None
    then show ?thesis by (simp add: parse_cachegrind_output_def totals_loop_find)
  next
    case (Some l)
    then have "11 \<le> length (totals_numbers l)" by (auto dest: find_holds)
    then have "metrics_of (take 11 (totals_numbers l)) = metrics_of (totals_numbers l)"
      by (simp add: metrics_of_def)
    with Some show ?thesis by (simp add: parse_cachegrind_output_def totals_loop_find)
  qed
next
  show "parse_cachegrind_output (Inl ex) = None" by (simp add: parse_cachegrind_output_def)
next
  show "cache_row_for_test algo (Inr output) =
     (case find is_totals_line (split_on (CHR 0x0A) [] output) of
        None \<Rightarrow> None
      | Some l \<Rightarrow>
          if 11 \<le> length (totals_numbers l)
          then Some \<lparr>c_algorithm = algo, c_instructions = totals_numbers l ! 0,
                     c_l1_i_misses = totals_numbers l ! 1, c_l1_d_misses = totals_numbers l ! 4,
                     c_l1_total_misses = totals_numbers l ! 1 + totals_numbers l ! 4,
                     c_branches = totals_numbers l ! 9, c_branch_mispredicts = totals_numbers l ! 10\<rparr>
          else None)"
    by (simp add: cache_row_for_test_def first_totals_loop_find)
next
  show "cache_row_for_test algo (Inl ex) = None" by (simp add: cache_row_for_test_def)
qed

theorem totals_line_parsed_witness:
  "map_option fields (parse_cachegrind_output (Inr annotate_output))
     = Some [2612345, 1402, 1377, 621004, 15210, 9872, 301776, 1934, 1640, 410223, 18002]"
proof -
  have "map_option fields
          (case find (\<lambda>l. is_totals_line l \<and> 11 \<le> length (totals_numbers l))
                  (split_on (CHR 0x0A) [] annotate_output) of
             None \<Rightarrow> None
           | Some l \<Rightarrow> Some (metrics_of (take 11 (totals_numbers l))))
     = Some [2612345, 1402, 1377, 621004, 15210, 9872, 301776, 1934, 1640, 410223, 18002]"
    by code_simp
  with totals_line_parsed [of annotate_output] show ?thesis by simp
qed

theorem totals_line_parsed_counterexample:
  "is_totals_line loose_totals_line
   \<and> percentage_numbers loose_totals_line = [1, 2, 3, 4, 5, 6, 7, 8, 9, 10, 11]
   \<and> map_option fields (parse_cachegrind_output (Inr loose_totals_line))
       = Some [99, 1, 2, 3, 4, 5, 6, 7, 8, 9, 10]"
  by code_simp

text \<open>
  A totals line with fewer than eleven integers does not end the search of
  \<^verbatim>\<open>parse_cachegrind_output\<close>, and ends that of \<^verbatim>\<open>parse_cachegrind_for_test\<close>.
\<close>

lemma totals_line_later_line:
  "map_option fields
     (parse_cachegrind_output (Inr (''1 (1.0%) PROGRAM TOTALS'' @ [CHR 0x0A] @ loose_totals_line)))
     = Some [99, 1, 2, 3, 4, 5, 6, 7, 8, 9, 10]
   \<and> map_option c_instructions
       (cache_row_for_test ''p1'' (Inr (''1 (1.0%) PROGRAM TOTALS'' @ [CHR 0x0A] @ loose_totals_line))) = None"
  by code_simp

section \<open>Properties of the resource-usage parser on whole reports\<close>

lemma skips_append: "skips m (u1 @ u2) v = (skips m u1 (u2 @ v) \<and> skips m u2 v)"
  by (induction u1) auto

lemma split_algorithms_skip:
  "skips match_algorithm u v \<Longrightarrow> split_algorithms cur (u @ v) = split_algorithms (cur @ u) v"
  by (induction u arbitrary: cur) auto

lemma split_tests_skip:
  "skips match_test u v \<Longrightarrow> split_tests cur (u @ v) = split_tests (cur @ u) v"
  by (induction u arbitrary: cur) auto

lemma search_memory_skip:
  "skips match_memory u v \<Longrightarrow> search_memory (u @ v) = search_memory v"
  by (induction u) auto

lemma startswith_Cons: "startswith (c # s) (d # p) = (c = d \<and> startswith s p)"
  by (simp add: startswith_def)

lemma startswith_Nil: "startswith s [] = True" "startswith [] (d # p) = False"
  by (simp_all add: startswith_def)

lemma startswith_append:
  "startswith (u @ v) p =
     (if length p \<le> length u then startswith u p
      else take (length u) p = u \<and> startswith v (drop (length u) p))"
proof (induction u arbitrary: p)
  case Nil
  then show ?case by (simp add: startswith_def)
next
  case (Cons c u)
  show ?case
  proof (cases p)
    case Nil
    then show ?thesis by (simp add: startswith_def)
  next
    case (Cons d q)
    with Cons.IH [of q] show ?thesis by (auto simp: startswith_Cons)
  qed
qed

lemma skips_literal:
  assumes lit: "\<And>s. m s \<noteq> None \<Longrightarrow> startswith s L"
    and "\<not> contains u L"
    and "v = [] \<or> hd v \<notin> set (tl L)"
  shows "skips m u v"
  using assms(2)
proof (induction u)
  case Nil
  show ?case by simp
next
  case (Cons c u)
  then have nc: "\<not> startswith (c # u) L" and nu: "\<not> contains u L" by simp_all
  have "m (c # u @ v) = None"
  proof (rule ccontr)
    assume "m (c # u @ v) \<noteq> None"
    then have sw: "startswith ((c # u) @ v) L" using lit by fastforce
    show False
    proof (cases "length L \<le> length (c # u)")
      case True
      with sw nc show False by (simp only: startswith_append if_True)
    next
      case False
      with sw have t: "take (length (c # u)) L = c # u"
        and d: "startswith v (drop (length (c # u)) L)"
        by (simp_all only: startswith_append if_False)
      from False obtain x xs where dr: "drop (length (c # u)) L = x # xs"
        by (cases "drop (length (c # u)) L") auto
      with d have "v \<noteq> []" "hd v = x" by (cases v; simp add: startswith_def)+
      moreover have "x \<in> set (tl L)"
      proof -
        have "x \<in> set (drop (length (c # u)) L)" using dr by simp
        also have "\<dots> \<subseteq> set (drop 1 L)" by (rule set_drop_subset_set_drop) simp
        finally show ?thesis by (simp add: drop_Suc)
      qed
      ultimately show False using assms(3) by simp
    qed
  qed
  with Cons.IH [OF nu] show ?case by simp
qed

lemma startswith_split: "startswith s p \<Longrightarrow> s = p @ drop (length p) s"
  by (metis append_take_drop_id startswith_def)

lemma match_algorithm_literal: "match_algorithm s \<noteq> None \<Longrightarrow> startswith s ''Algorithm: p''"
  by (simp add: match_algorithm_def split: if_splits)

lemma match_test_literal: "match_test s \<noteq> None \<Longrightarrow> startswith s ''Test: ''"
  by (simp add: match_test_def split: if_splits)

lemma match_memory_literal: "match_memory s \<noteq> None \<Longrightarrow> startswith s memory_label"
  by (simp add: match_memory_def memory_label_def split: if_splits)

lemma skips_first_char:
  assumes "\<And>s. m s \<noteq> None \<Longrightarrow> startswith s (a # L)" and "a \<notin> set u"
  shows "skips m u v"
  using assms(2)
proof (induction u)
  case Nil
  show ?case by simp
next
  case (Cons c u)
  have "m (c # u @ v) = None"
  proof (rule ccontr)
    assume "m (c # u @ v) \<noteq> None"
    then have "startswith (c # u @ v) (a # L)" by (rule assms(1))
    then have "c = a" by (simp add: startswith_Cons)
    with Cons.prems show False by simp
  qed
  with Cons show ?case by simp
qed

lemma takeWhile_word_run:
  assumes "list_all P u" "v = [] \<or> \<not> P (hd v)"
  shows "takeWhile P (u @ v) = u" and "dropWhile P (u @ v) = v"
proof -
  from assms(2) have "takeWhile P v = []" "dropWhile P v = v" by (cases v; simp)+
  with assms(1) show "takeWhile P (u @ v) = u" and "dropWhile P (u @ v) = v"
    by (simp_all add: list_all_iff)
qed

lemma skips_word:
  assumes m: "\<And>s. m s \<noteq> None \<Longrightarrow> \<exists>w r. s = w @ CHR '':'' # r \<and> list_all is_word w"
    and "list_all is_word u" "v \<noteq> []" "\<not> is_word (hd v)" "hd v \<noteq> CHR '':''"
  shows "skips m u v"
  using assms(2)
proof (induction u)
  case Nil
  show ?case by simp
next
  case (Cons c u)
  have "m (c # u @ v) = None"
  proof (rule ccontr)
    assume "m (c # u @ v) \<noteq> None"
    from m [OF this] obtain w r where eq: "c # u @ v = w @ CHR '':'' # r" and w: "list_all is_word w"
      by blast
    have "takeWhile is_word ((c # u) @ v) = c # u"
      using Cons.prems assms(4) by (intro takeWhile_word_run) simp_all
    moreover have "takeWhile is_word (w @ CHR '':'' # r) = w"
      using w by (intro takeWhile_word_run) (simp_all add: is_word_def)
    ultimately have "w = c # u" using eq by simp
    with eq have "v = CHR '':'' # r" by simp
    with assms(5) show False by simp
  qed
  moreover from Cons.prems have "list_all is_word u" by simp
  ultimately show ?case using Cons.IH by simp
qed

lemma match_algorithm_word:
  "match_algorithm s \<noteq> None \<Longrightarrow> \<exists>w r. s = w @ CHR '':'' # r \<and> list_all is_word w"
proof -
  assume "match_algorithm s \<noteq> None"
  then have "s = ''Algorithm: p'' @ drop (length ''Algorithm: p'') s"
    by (intro startswith_split match_algorithm_literal)
  then have "s = ''Algorithm'' @ CHR '':'' # ('' p'' @ drop (length ''Algorithm: p'') s)" by simp
  moreover have "list_all is_word ''Algorithm''" by (simp add: is_word_def)
  ultimately show ?thesis by blast
qed

lemma match_test_word:
  "match_test s \<noteq> None \<Longrightarrow> \<exists>w r. s = w @ CHR '':'' # r \<and> list_all is_word w"
proof -
  assume "match_test s \<noteq> None"
  then have "s = ''Test: '' @ drop (length ''Test: '') s"
    by (intro startswith_split match_test_literal)
  then have "s = ''Test'' @ CHR '':'' # ('' '' @ drop (length ''Test: '') s)" by simp
  moreover have "list_all is_word ''Test''" by (simp add: is_word_def)
  ultimately show ?thesis by blast
qed

lemma letters_not_digits:
  "\<not> is_digit (CHR ''A'')" "\<not> is_digit (CHR ''T'')" "\<not> is_digit (CHR ''M'')"
  by (simp_all add: is_digit_def)

lemma digits_no_letter:
  assumes "isdigit ds"
  shows "CHR ''A'' \<notin> set ds \<and> CHR ''T'' \<notin> set ds \<and> CHR ''M'' \<notin> set ds"
proof -
  from assms have "\<And>c. c \<in> set ds \<Longrightarrow> is_digit c" by (simp add: isdigit_def list_all_iff)
  with letters_not_digits show ?thesis by blast
qed

lemma space_not_word: "isspace c \<Longrightarrow> \<not> is_word c \<and> c \<noteq> CHR '':''"
proof -
  assume "isspace c"
  then have "c \<in> set [CHR 0x09, CHR 0x0A, CHR 0x0B, CHR 0x0C, CHR 0x0D,
                          CHR 0x1C, CHR 0x1D, CHR 0x1E, CHR 0x1F, CHR 0x20]"
    by (simp only: isspace_def)
  moreover have "list_all (\<lambda>c. \<not> is_word c \<and> c \<noteq> CHR '':'')
       [CHR 0x09, CHR 0x0A, CHR 0x0B, CHR 0x0C, CHR 0x0D,
                          CHR 0x1C, CHR 0x1D, CHR 0x1E, CHR 0x1F, CHR 0x20]"
    by code_simp
  ultimately show ?thesis unfolding list_all_iff by blast
qed

lemma next_char_ok1:
  assumes "v = [] \<or> hd v = CHR ''T'' \<or> hd v = CHR ''A''"
  shows "v = [] \<or> hd v \<notin> set (tl ''Algorithm: p'')"
  using assms by (elim disjE) simp_all

lemma next_char_ok2:
  assumes "v = [] \<or> hd v = CHR ''T'' \<or> hd v = CHR ''A''"
  shows "v = [] \<or> hd v \<notin> set (tl ''Test: '')"
  using assms by (elim disjE) simp_all

lemma label_next_ok:
  "memory_label @ x = [] \<or> hd (memory_label @ x) \<notin> set (tl ''Algorithm: p'')"
  "memory_label @ x = [] \<or> hd (memory_label @ x) \<notin> set (tl ''Test: '')"
  "memory_label @ x = [] \<or> hd (memory_label @ x) \<notin> set (tl memory_label)"
  by (simp_all add: memory_label_def)

lemma label_no_letter: "CHR ''A'' \<notin> set memory_label" "CHR ''T'' \<notin> set memory_label"
  by (simp_all add: memory_label_def)

lemma test_no_letter: "CHR ''A'' \<notin> set ''Test: ''"
  by simp

lemma block_data_skips_algorithm:
  assumes "well_formed_block b" "v = [] \<or> hd v = CHR ''T'' \<or> hd v = CHR ''A''"
  shows "skips match_algorithm (block_data b) v"
proof -
  from assms(1) have q1: "\<not> contains (b_before b) ''Algorithm: p''"
    and q2: "\<not> contains (b_after b) ''Algorithm: p''" and d: "isdigit (b_digits b)"
    by (simp_all add: well_formed_block_def quiet_def)
  have 1: "skips match_algorithm (b_before b) (memory_label @ b_digits b @ b_after b @ v)"
    using match_algorithm_literal q1 label_next_ok(1) by (rule skips_literal)
  have 2: "skips match_algorithm memory_label (b_digits b @ b_after b @ v)"
    using match_algorithm_literal label_no_letter(1) by (rule skips_first_char)
  have 3: "skips match_algorithm (b_digits b) (b_after b @ v)"
    using match_algorithm_literal digits_no_letter [OF d, THEN conjunct1] by (rule skips_first_char)
  have 4: "skips match_algorithm (b_after b) v"
    using match_algorithm_literal q2 next_char_ok1 [OF assms(2)] by (rule skips_literal)
  from 1 2 3 4 show ?thesis by (simp add: block_data_def skips_append)
qed

lemma block_data_skips_test:
  assumes "well_formed_block b" "v = [] \<or> hd v = CHR ''T'' \<or> hd v = CHR ''A''"
  shows "skips match_test (block_data b) v"
proof -
  from assms(1) have q1: "\<not> contains (b_before b) ''Test: ''"
    and q2: "\<not> contains (b_after b) ''Test: ''" and d: "isdigit (b_digits b)"
    by (simp_all add: well_formed_block_def quiet_def)
  have 1: "skips match_test (b_before b) (memory_label @ b_digits b @ b_after b @ v)"
    using match_test_literal q1 label_next_ok(2) by (rule skips_literal)
  have 2: "skips match_test memory_label (b_digits b @ b_after b @ v)"
    using match_test_literal label_no_letter(2) by (rule skips_first_char)
  have 3: "skips match_test (b_digits b) (b_after b @ v)"
    using match_test_literal digits_no_letter [OF d, THEN conjunct2, THEN conjunct1] by (rule skips_first_char)
  have 4: "skips match_test (b_after b) v"
    using match_test_literal q2 next_char_ok2 [OF assms(2)] by (rule skips_literal)
  from 1 2 3 4 show ?thesis by (simp add: block_data_def skips_append)
qed

lemma block_data_starts:
  assumes "well_formed_block b"
  shows "block_data b @ v \<noteq> []" "isspace (hd (block_data b @ v))"
  using assms by (simp_all add: well_formed_block_def block_data_def)

lemma render_block_skips_algorithm:
  assumes "well_formed_block b" "v = [] \<or> hd v = CHR ''T'' \<or> hd v = CHR ''A''"
  shows "skips match_algorithm (render_block b) v"
proof -
  have 1: "skips match_algorithm ''Test: '' (b_name b @ block_data b @ v)"
    using match_algorithm_literal test_no_letter by (rule skips_first_char)
  have 2: "skips match_algorithm (b_name b) (block_data b @ v)"
    using match_algorithm_word
  proof (rule skips_word)
    show "list_all is_word (b_name b)" using assms(1) by (simp add: well_formed_block_def)
    show "block_data b @ v \<noteq> []" using assms(1) by (rule block_data_starts)
    show "\<not> is_word (hd (block_data b @ v))"
      using block_data_starts(2) [OF assms(1), of v] by (rule space_not_word [THEN conjunct1])
    show "hd (block_data b @ v) \<noteq> CHR '':''"
      using block_data_starts(2) [OF assms(1), of v] by (rule space_not_word [THEN conjunct2])
  qed
  from 1 2 block_data_skips_algorithm [OF assms] show ?thesis
    by (simp add: render_block_def skips_append)
qed

lemma blocks_start:
  assumes "v = [] \<or> hd v = CHR ''T'' \<or> hd v = CHR ''A''"
  shows "concat (map render_block bs) @ v = []
         \<or> hd (concat (map render_block bs) @ v) = CHR ''T''
         \<or> hd (concat (map render_block bs) @ v) = CHR ''A''"
proof (cases bs)
  case Nil
  with assms show ?thesis by simp
next
  case (Cons b bs')
  then show ?thesis by (simp add: render_block_def)
qed

lemma blocks_skip_algorithm:
  assumes "list_all well_formed_block bs" "v = [] \<or> hd v = CHR ''T'' \<or> hd v = CHR ''A''"
  shows "skips match_algorithm (concat (map render_block bs)) v"
  using assms(1)
proof (induction bs)
  case Nil
  show ?case by simp
next
  case (Cons b bs)
  then have wf: "well_formed_block b" and rest: "skips match_algorithm (concat (map render_block bs)) v"
    by simp_all
  have "concat (map render_block bs) @ v = []
          \<or> hd (concat (map render_block bs) @ v) = CHR ''T''
          \<or> hd (concat (map render_block bs) @ v) = CHR ''A''"
    using assms(2) by (rule blocks_start)
  with wf have "skips match_algorithm (render_block b) (concat (map render_block bs) @ v)"
    by (rule render_block_skips_algorithm)
  with rest show ?case by (simp add: skips_append)
qed

lemma section_text_skips_algorithm:
  assumes "well_formed_section s" "v = [] \<or> hd v = CHR ''A''"
  shows "skips match_algorithm (section_text s) v"
proof -
  let ?bs = "concat (map render_block (s_blocks s))"
  from assms(1) have q: "\<not> contains (s_intro s) ''Algorithm: p''"
    and wf: "list_all well_formed_block (s_blocks s)"
    by (simp_all add: well_formed_section_def quiet_def)
  from assms(2) have v: "v = [] \<or> hd v = CHR ''T'' \<or> hd v = CHR ''A''" by blast
  then have "?bs @ v = [] \<or> hd (?bs @ v) = CHR ''T'' \<or> hd (?bs @ v) = CHR ''A''"
    by (rule blocks_start)
  then have "?bs @ v = [] \<or> hd (?bs @ v) \<notin> set (tl ''Algorithm: p'')"
    by (rule next_char_ok1)
  with match_algorithm_literal q have "skips match_algorithm (s_intro s) (?bs @ v)"
    by (rule skips_literal)
  moreover have "skips match_algorithm ?bs v"
    using wf v by (rule blocks_skip_algorithm)
  ultimately show ?thesis by (simp add: section_text_def skips_append)
qed

lemma match_algorithm_marker:
  "is_digit d \<Longrightarrow> match_algorithm (''Algorithm: p'' @ d # x) = Some ([CHR ''p'', d], x)"
  by (simp add: match_algorithm_def startswith_def)

lemma split_algorithms_marker:
  assumes "is_digit d"
  shows "split_algorithms cur (''Algorithm: p'' @ d # x) = cur # [CHR ''p'', d] # split_algorithms [] x"
proof -
  have "split_algorithms cur (CHR ''A'' # (''lgorithm: p'' @ d # x))
          = (case match_algorithm (CHR ''A'' # (''lgorithm: p'' @ d # x)) of
               Some (g, rest) \<Rightarrow> cur # g # split_algorithms [] rest
             | None \<Rightarrow> split_algorithms (cur @ [CHR ''A'']) (''lgorithm: p'' @ d # x))"
    by (rule split_algorithms.simps(2))
  moreover have "CHR ''A'' # (''lgorithm: p'' @ d # x) = ''Algorithm: p'' @ d # x" by simp
  ultimately show ?thesis
    using match_algorithm_marker [OF assms, of x] by (simp only: option.case prod.case)
qed

lemma match_test_marker:
  assumes "name \<noteq> []" "list_all is_word name" "x \<noteq> []" "\<not> is_word (hd x)"
  shows "match_test (''Test: '' @ name @ x) = Some (name, x)"
proof -
  have "takeWhile is_word (name @ x) = name" "dropWhile is_word (name @ x) = x"
    using assms(2,4) by (simp_all add: takeWhile_word_run)
  with assms(1) show ?thesis by (simp add: match_test_def startswith_def)
qed

lemma split_tests_marker:
  assumes "name \<noteq> []" "list_all is_word name" "x \<noteq> []" "\<not> is_word (hd x)"
  shows "split_tests cur (''Test: '' @ name @ x) = cur # name # split_tests [] x"
proof -
  have "split_tests cur (CHR ''T'' # (''est: '' @ name @ x))
          = (case match_test (CHR ''T'' # (''est: '' @ name @ x)) of
               Some (g, rest) \<Rightarrow> cur # g # split_tests [] rest
             | None \<Rightarrow> split_tests (cur @ [CHR ''T'']) (''est: '' @ name @ x))"
    by (rule split_tests.simps(2))
  moreover have "CHR ''T'' # (''est: '' @ name @ x) = ''Test: '' @ name @ x" by simp
  ultimately show ?thesis
    using match_test_marker [OF assms] by (simp only: option.case prod.case)
qed

lemma sections_start:
  "concat (map render_section secs) = [] \<or> hd (concat (map render_section secs)) = CHR ''A''"
  by (cases secs) (simp_all add: render_section_def)

lemma split_algorithms_sections:
  assumes "list_all well_formed_section secs"
  shows "split_algorithms cur (concat (map render_section secs))
           = cur # concat (map (\<lambda>s. [[CHR ''p'', s_digit s], section_text s]) secs)"
  using assms
proof (induction secs arbitrary: cur)
  case Nil
  show ?case by simp
next
  case (Cons s secs)
  let ?R = "concat (map render_section secs)"
  from Cons.prems have wf: "well_formed_section s" and rest: "list_all well_formed_section secs"
    by simp_all
  from wf have d: "is_digit (s_digit s)" by (simp add: well_formed_section_def)
  have "split_algorithms cur (concat (map render_section (s # secs)))
          = split_algorithms cur (''Algorithm: p'' @ s_digit s # (section_text s @ ?R))"
    by (simp add: render_section_def)
  also have "\<dots> = cur # [CHR ''p'', s_digit s] # split_algorithms [] (section_text s @ ?R)"
    using d by (rule split_algorithms_marker)
  also have "split_algorithms [] (section_text s @ ?R) = split_algorithms ([] @ section_text s) ?R"
    using section_text_skips_algorithm [OF wf sections_start] by (rule split_algorithms_skip)
  also have "split_algorithms ([] @ section_text s) ?R
               = section_text s # concat (map (\<lambda>s. [[CHR ''p'', s_digit s], section_text s]) secs)"
    using Cons.IH [OF rest] by simp
  finally show ?case by simp
qed

lemma split_algorithms_report:
  assumes "well_formed_report preamble secs"
  shows "split_algorithms [] (render_report preamble secs)
           = preamble # concat (map (\<lambda>s. [[CHR ''p'', s_digit s], section_text s]) secs)"
proof -
  let ?R = "concat (map render_section secs)"
  from assms have q: "\<not> contains preamble ''Algorithm: p''" and wf: "list_all well_formed_section secs"
    by (simp_all add: well_formed_report_def quiet_def)
  have "?R = [] \<or> hd ?R \<notin> set (tl ''Algorithm: p'')"
    using sections_start [of secs] by (elim disjE) simp_all
  with match_algorithm_literal q have "skips match_algorithm preamble ?R" by (rule skips_literal)
  then have "split_algorithms [] (preamble @ ?R) = split_algorithms ([] @ preamble) ?R"
    by (rule split_algorithms_skip)
  with split_algorithms_sections [OF wf] show ?thesis by (simp add: render_report_def)
qed

lemma marker_pairs_interleave:
  "marker_pairs (concat (map (\<lambda>x. [f x, g x]) xs)) = map (\<lambda>x. (f x, g x)) xs"
  by (induction xs) simp_all

lemma blocks_start_test:
  "concat (map render_block bs) = [] \<or> hd (concat (map render_block bs)) = CHR ''T''"
  by (cases bs) (simp_all add: render_block_def)

lemma split_tests_blocks:
  assumes "list_all well_formed_block bs"
  shows "split_tests cur (concat (map render_block bs))
           = cur # concat (map (\<lambda>b. [b_name b, block_data b]) bs)"
  using assms
proof (induction bs arbitrary: cur)
  case Nil
  show ?case by simp
next
  case (Cons b bs)
  let ?R = "concat (map render_block bs)"
  from Cons.prems have wf: "well_formed_block b" and rest: "list_all well_formed_block bs"
    by simp_all
  from wf have nm: "b_name b \<noteq> []" "list_all is_word (b_name b)"
    by (simp_all add: well_formed_block_def)
  have st: "block_data b @ ?R \<noteq> []" "\<not> is_word (hd (block_data b @ ?R))"
    using block_data_starts [OF wf, of ?R] space_not_word by simp_all
  have next_ok: "?R = [] \<or> hd ?R = CHR ''T'' \<or> hd ?R = CHR ''A''"
    using blocks_start_test [of bs] by blast
  have "split_tests cur (concat (map render_block (b # bs)))
          = split_tests cur (''Test: '' @ b_name b @ (block_data b @ ?R))"
    by (simp add: render_block_def)
  also have "\<dots> = cur # b_name b # split_tests [] (block_data b @ ?R)"
    using nm st by (rule split_tests_marker)
  also have "split_tests [] (block_data b @ ?R) = split_tests ([] @ block_data b) ?R"
    using block_data_skips_test [OF wf next_ok] by (rule split_tests_skip)
  also have "split_tests ([] @ block_data b) ?R
               = block_data b # concat (map (\<lambda>b. [b_name b, block_data b]) bs)"
    using Cons.IH [OF rest] by simp
  finally show ?case by simp
qed

lemma split_tests_section:
  assumes "well_formed_section s"
  shows "split_tests [] (section_text s)
           = s_intro s # concat (map (\<lambda>b. [b_name b, block_data b]) (s_blocks s))"
proof -
  let ?R = "concat (map render_block (s_blocks s))"
  from assms have q: "\<not> contains (s_intro s) ''Test: ''" and wf: "list_all well_formed_block (s_blocks s)"
    by (simp_all add: well_formed_section_def quiet_def)
  have "?R = [] \<or> hd ?R \<notin> set (tl ''Test: '')"
    using blocks_start_test [of "s_blocks s"] by (elim disjE) simp_all
  with match_test_literal q have "skips match_test (s_intro s) ?R" by (rule skips_literal)
  then have "split_tests [] (s_intro s @ ?R) = split_tests ([] @ s_intro s) ?R"
    by (rule split_tests_skip)
  with split_tests_blocks [OF wf] show ?thesis by (simp add: section_text_def)
qed

lemma search_memory_label:
  assumes "isdigit ds" "list_all (\<lambda>c. \<not> is_digit c) (take 1 x)"
  shows "search_memory (memory_label @ ds @ x) = Some ds"
proof -
  from assms(2) have "x = [] \<or> \<not> is_digit (hd x)" by (cases x) simp_all
  with assms(1) have tw: "takeWhile is_digit (ds @ x) = ds"
    by (intro takeWhile_word_run) (simp_all add: isdigit_def)
  from assms(1) have "ds \<noteq> []" by (simp add: isdigit_def)
  with tw have m: "match_memory (memory_label @ ds @ x) = Some ds"
    by (simp add: match_memory_def memory_label_def startswith_def)
  obtain c cs where eq: "memory_label @ ds @ x = c # cs"
    by (cases "memory_label @ ds @ x") (simp_all add: memory_label_def)
  have "search_memory (c # cs) = (case match_memory (c # cs) of Some g \<Rightarrow> Some g | None \<Rightarrow> search_memory cs)"
    by (rule search_memory.simps(2))
  with m show ?thesis unfolding eq by simp
qed

lemma search_memory_block:
  assumes "well_formed_block b"
  shows "search_memory (block_data b) = Some (b_digits b)"
proof -
  from assms have q: "\<not> contains (b_before b) memory_label" and d: "isdigit (b_digits b)"
    and a: "list_all (\<lambda>c. \<not> is_digit c) (take 1 (b_after b))"
    by (simp_all add: well_formed_block_def)
  from match_memory_literal q label_next_ok(3)
  have "skips match_memory (b_before b) (memory_label @ b_digits b @ b_after b)"
    by (rule skips_literal)
  then have "search_memory (b_before b @ memory_label @ b_digits b @ b_after b)
               = search_memory (memory_label @ b_digits b @ b_after b)"
    by (rule search_memory_skip)
  with search_memory_label [OF d a] show ?thesis by (simp add: block_data_def)
qed

lemma block_row_block:
  assumes "well_formed_block b"
  shows "block_row algo (b_name b) (block_data b)
           = Inr (case categorise (b_name b) of
                    None \<Rightarrow> None
                  | Some cat \<Rightarrow> Some \<lparr>mem_algorithm = algo, mem_test = b_name b, mem_category = cat,
                                      memory_kb = dec_value (b_digits b),
                                      memory_mb = of_int (dec_value (b_digits b)) / 1024\<rparr>)"
proof -
  from assms have d: "isdigit (b_digits b)" and f: "\<not> float_overflow (dec_value (b_digits b))"
    by (simp_all add: well_formed_block_def)
  show ?thesis
    by (simp add: block_row_def search_memory_block [OF assms] py_int_digits [OF d] f
             split: option.splits)
qed

lemma tests_loop_blocks:
  assumes "list_all well_formed_block bs"
  shows "tests_loop algo (map (\<lambda>b. (b_name b, block_data b)) bs) data
           = Inr (data @ concat (map (block_rows algo) bs))"
  using assms
proof (induction bs arbitrary: data)
  case Nil
  show ?case by simp
next
  case (Cons b bs)
  then have wf: "well_formed_block b" and rest: "list_all well_formed_block bs" by simp_all
  show ?case
  proof (cases "categorise (b_name b)")
    case None
    then show ?thesis
      using Cons.IH [OF rest, of data]
      by (simp add: block_row_block [OF wf] block_rows_def)
  next
    case (Some cat)
    then show ?thesis
      using Cons.IH [OF rest]
      by (simp add: block_row_block [OF wf] block_rows_def)
  qed
qed

lemma algorithms_loop_sections:
  assumes "list_all well_formed_section secs"
  shows "algorithms_loop (map (\<lambda>s. ([CHR ''p'', s_digit s], section_text s)) secs) data
           = Inr (data @ report_rows secs)"
  using assms
proof (induction secs arbitrary: data)
  case Nil
  show ?case by (simp add: report_rows_def)
next
  case (Cons s secs)
  then have wf: "well_formed_section s" and rest: "list_all well_formed_section secs" by simp_all
  from wf have bs: "list_all well_formed_block (s_blocks s)" by (simp add: well_formed_section_def)
  have t: "tests_loop [CHR ''p'', s_digit s] (marker_pairs (tl (split_tests [] (section_text s)))) data
             = Inr (data @ section_rows s)"
    by (simp add: split_tests_section [OF wf] marker_pairs_interleave tests_loop_blocks [OF bs]
                  section_rows_def)
  show ?case
    using Cons.IH [OF rest, of "data @ section_rows s"]
    by (simp add: t report_rows_def)
qed

text \<open>
  Claim C8, as amended. For a report whose sections are headed \<^verbatim>\<open>Algorithm: p\<close> and one
  digit, whose test blocks are headed \<^verbatim>\<open>Test: \<close> and a name of word characters followed by
  whitespace, each block holding \<^verbatim>\<open>Maximum resident set size (kbytes): \<close> and digits whose
  integer fits a double, with no marker in the text in between, the parser returns, in the
  order of the report, exactly one row for every block whose name has a category: the
  algorithm \<^verbatim>\<open>p\<close> and its digit, the name, the category and the integer. The report of an
  algorithm \<^verbatim>\<open>p1\<close> with the test \<^verbatim>\<open>dense_03\<close> and 2048 kbytes gives the one row with
  \<^verbatim>\<open>p1\<close>, \<^verbatim>\<open>dense_03\<close>, \<^verbatim>\<open>dense\<close> and 2048.
\<close>

theorem report_round_trip:
  assumes "well_formed_report preamble secs"
  shows "snd (parse_performance_metrics metrics_file (Readable (render_report preamble secs)))
           = Inr (if report_rows secs = [] then None else Some (report_rows secs))"
proof -
  from assms have wf: "list_all well_formed_section secs" by (simp add: well_formed_report_def)
  have "algorithms_loop (marker_pairs (tl (split_algorithms [] (render_report preamble secs)))) []
          = Inr (report_rows secs)"
    using algorithms_loop_sections [OF wf, of "[]"]
    by (simp add: split_algorithms_report [OF assms] marker_pairs_interleave)
  then show ?thesis by (simp add: parse_performance_metrics_def)
qed

theorem report_round_trip_witness:
  "well_formed_report [] example_report
   \<and> render_report [] example_report
       = ''Algorithm: p1'' @ [CHR 0x0A] @ ''Test: dense_03'' @ [CHR 0x0A]
         @ ''Maximum resident set size (kbytes): 2048'' @ [CHR 0x0A]
   \<and> snd (parse_performance_metrics ''performance_metrics.txt''
            (Readable (''Algorithm: p1'' @ [CHR 0x0A] @ ''Test: dense_03'' @ [CHR 0x0A]
               @ ''Maximum resident set size (kbytes): 2048'' @ [CHR 0x0A])))
       = Inr (Some [\<lparr>mem_algorithm = ''p1'', mem_test = ''dense_03'', mem_category = ''dense'',
                      memory_kb = 2048, memory_mb = 2\<rparr>])"
proof -
  have a: "well_formed_report [] example_report" by code_simp
  have b: "render_report [] example_report
       = ''Algorithm: p1'' @ [CHR 0x0A] @ ''Test: dense_03'' @ [CHR 0x0A]
         @ ''Maximum resident set size (kbytes): 2048'' @ [CHR 0x0A]"
    by code_simp
  have c: "report_rows example_report
       = [\<lparr>mem_algorithm = ''p1'', mem_test = ''dense_03'', mem_category = ''dense'',
            memory_kb = 2048, memory_mb = 2\<rparr>]"
    by code_simp
  from report_round_trip [OF a, of "''performance_metrics.txt''"]
  have "snd (parse_performance_metrics ''performance_metrics.txt''
            (Readable (''Algorithm: p1'' @ [CHR 0x0A] @ ''Test: dense_03'' @ [CHR 0x0A]
               @ ''Maximum resident set size (kbytes): 2048'' @ [CHR 0x0A])))
       = Inr (Some [\<lparr>mem_algorithm = ''p1'', mem_test = ''dense_03'', mem_category = ''dense'',
                      memory_kb = 2048, memory_mb = 2\<rparr>])"
    unfolding b c by simp
  with a b show ?thesis by (intro conjI)
qed

theorem report_round_trip_counterexample:
  "snd (parse_performance_metrics ''performance_metrics.txt''
          (Readable (''Algorithm: tarjan'' @ [CHR 0x0A] @ ''Test: dense_03'' @ [CHR 0x0A]
             @ ''Maximum resident set size (kbytes): 2048'' @ [CHR 0x0A])))
     = Inr None
   \<and> snd (parse_performance_metrics ''performance_metrics.txt''
          (Readable (''Algorithm: p1'' @ [CHR 0x0A] @ ''Test: web-Google'' @ [CHR 0x0A]
             @ ''Maximum resident set size (kbytes): 2048'' @ [CHR 0x0A])))
     = Inr (Some [\<lparr>mem_algorithm = ''p1'', mem_test = ''web'', mem_category = ''real_world'',
                    memory_kb = 2048, memory_mb = 2\<rparr>])
   \<and> block_row ''p1'' ''dense_03''
         ([CHR 0x0A] @ ''Maximum resident set size (kbytes): 1'' @ replicate 310 (CHR ''0'') @ [CHR 0x0A])
     = Inl overflow_error"
  by code_simp

end
